theory Spec2Isabelle
  imports Main "HOL-Library.Word"
begin

unbundle bit_operations_syntax

section \<open>Bytes, machine integers and errors\<close>

text \<open>
  The package \<^verbatim>\<open>bnk\<close> (file.go) reads and writes Wwise SoundBank files through Go's
  \<^verbatim>\<open>io\<close> and \<^verbatim>\<open>encoding/binary\<close> packages. A \<^verbatim>\<open>byte\<close> is an 8-bit word, a
  \<^verbatim>\<open>uint32\<close> a 32-bit word (its arithmetic wraps). An \<^verbatim>\<open>int64\<close> is an \<open>int\<close>: in the
  parser every \<^verbatim>\<open>int64\<close> is a position in the source or a difference of two positions,
  bounded by the length of the source plus \<open>2 ^ 33\<close>, so those operations are written
  without wrap-around; where a caller-supplied \<^verbatim>\<open>int64\<close> enters the arithmetic
  (\<^verbatim>\<open>NewSectionReader\<close>, \<^verbatim>\<open>ReplaceWem\<close>) the wrap-around is written out with \<open>int64\<close>.
\<close>

type_synonym byte = "8 word"
type_synonym uint32 = "32 word"

definition maxint64 :: int where
  "maxint64 = 2 ^ 63 - 1"

definition int64 :: "int \<Rightarrow> int" where
  "int64 x = (x + 2 ^ 63) mod 2 ^ 64 - 2 ^ 63"

text \<open>
  Errors returned as values (\<^verbatim>\<open>io.EOF\<close>, \<^verbatim>\<open>io.ErrUnexpectedEOF\<close>, the negative-offset
  errors of the readers, and the \<^verbatim>\<open>errors.New("There are no wems stored within this
  SoundBank.")\<close> of \<^verbatim>\<open>NewFile\<close>), and panics: the explicit \<^verbatim>\<open>panic(...)\<close> calls of
  file.go and the two run-time panics the code can raise (a nil pointer dereference and
  an index out of range).
\<close>

datatype error = EOF | ErrUnexpectedEOF | ErrNegativeOffset | ErrOffset | ErrNoWems

datatype panic =
    NilPointerDereference
  | IndexOutOfRange
  | ExpectedBKHD
  | ExpectedDIDX
  | ExpectedDATA
  | RepeatedWemId uint32
  | LargerWemUnsupported
  | LargerWemUnsupportedAt int int int

datatype failure = Error error | Panic panic

section \<open>The readers of package io\<close>

text \<open>
  An \<^verbatim>\<open>io.ReaderAt\<close> is one of: the caller's random-access source, a fixed byte
  sequence (an \<^verbatim>\<open>os.File\<close> or a \<^verbatim>\<open>bytes.Reader\<close>); the \<^verbatim>\<open>InfiniteReaderAt\<close> of
  file.go; or an \<^verbatim>\<open>io.SectionReader\<close> used through its \<^verbatim>\<open>ReadAt\<close>, which depends only on
  its underlying reader, its base and its limit (never on its cursor).

  \<open>ReadAt r k off\<close> is \<^verbatim>\<open>r.ReadAt(p, off)\<close> with \<open>len(p) = k\<close>: the bytes stored into
  \<open>p\<close>, the count \<open>n\<close> reported, and the error. \<^verbatim>\<open>InfiniteReaderAt.ReadAt\<close> fills the
  whole of \<open>p\<close> and reports 1.
\<close>

datatype ReaderAt =
    BytesReaderAt "byte list"
  | InfiniteReaderAt byte
  | SectionReaderAt ReaderAt int int

fun ReadAt :: "ReaderAt \<Rightarrow> nat \<Rightarrow> int \<Rightarrow> byte list \<times> nat \<times> error option" where
  "ReadAt (BytesReaderAt bs) k off =
     (if off < 0 then ([], 0, Some ErrNegativeOffset)
      else if int (length bs) \<le> off then ([], 0, Some EOF)
      else let d = take k (drop (nat off) bs)
           in (d, length d, if length d < k then Some EOF else None))"
| "ReadAt (InfiniteReaderAt v) k off = (replicate k v, 1, None)"
| "ReadAt (SectionReaderAt r base limit) k off =
     (if off < 0 \<or> limit - base \<le> off then ([], 0, Some EOF)
      else let off' = off + base; mx = limit - off'
           in if mx < int k
              then (case ReadAt r (nat mx) off' of
                      (d, n, e) \<Rightarrow> (d, n, if e = None then Some EOF else e))
              else ReadAt r k off')"

text \<open>
  An \<^verbatim>\<open>io.SectionReader\<close> as a reader with a cursor: the fields \<^verbatim>\<open>r\<close>, \<^verbatim>\<open>base\<close>,
  \<^verbatim>\<open>off\<close>, \<^verbatim>\<open>limit\<close>.
\<close>

record SectionReader =
  sr_r :: ReaderAt
  sr_base :: int
  sr_off :: int
  sr_limit :: int

definition NewSectionReader :: "ReaderAt \<Rightarrow> int \<Rightarrow> int \<Rightarrow> SectionReader" where
  "NewSectionReader r off n =
     (let remaining = (if off \<le> int64 (maxint64 - n) then n + off else maxint64)
      in \<lparr>sr_r = r, sr_base = off, sr_off = off, sr_limit = remaining\<rparr>)"

definition as_ReaderAt :: "SectionReader \<Rightarrow> ReaderAt" where
  "as_ReaderAt s = SectionReaderAt (sr_r s) (sr_base s) (sr_limit s)"

text \<open>
  \<^verbatim>\<open>SectionReader.Read(p)\<close> with \<open>len(p) = k\<close>: the bytes \<open>p[0:n]\<close> handed to the
  caller, the error, and the reader with its cursor advanced by \<open>n\<close>.
\<close>

definition SectionReader_Read ::
  "SectionReader \<Rightarrow> nat \<Rightarrow> byte list \<times> error option \<times> SectionReader" where
  "SectionReader_Read s k =
     (if sr_limit s \<le> sr_off s then ([], Some EOF, s)
      else let mx = sr_limit s - sr_off s;
               k' = (if mx < int k then nat mx else k)
           in case ReadAt (sr_r s) k' (sr_off s) of
                (d, n, e) \<Rightarrow> (take n d, e, s\<lparr>sr_off := sr_off s + int n\<rparr>))"

text \<open>\<^verbatim>\<open>SectionReader.Seek(offset, io.SeekCurrent)\<close>.\<close>

definition SectionReader_Seek ::
  "SectionReader \<Rightarrow> int \<Rightarrow> (int \<times> error option) \<times> SectionReader" where
  "SectionReader_Seek s offset =
     (let offset' = offset + sr_off s
      in if offset' < sr_base s then ((0, Some ErrOffset), s)
         else ((offset' - sr_base s, None), s\<lparr>sr_off := offset'\<rparr>))"

lemma ReadAt_progress:
  "ReadAt r k off = (d, n, None) \<Longrightarrow> 0 < k \<Longrightarrow> 0 < n \<and> n \<le> length d"
proof (induction r arbitrary: k off d n)
  case (BytesReaderAt bs)
  then show ?case
    by (auto simp: Let_def split: if_splits)
next
  case (InfiniteReaderAt v)
  then show ?case by auto
next
  case (SectionReaderAt r base limit)
  from SectionReaderAt.prems have inr: "\<not> (off < 0 \<or> limit - base \<le> off)"
    by (auto split: if_splits)
  show ?case
  proof (cases "limit - (off + base) < int k")
    case True
    with SectionReaderAt.prems inr show ?thesis
      by (auto simp: Let_def split: prod.splits if_splits)
  next
    case False
    with SectionReaderAt.prems inr have "ReadAt r k (off + base) = (d, n, None)"
      by (simp add: Let_def)
    with SectionReaderAt.IH SectionReaderAt.prems(2) show ?thesis by blast
  qed
qed

lemma SectionReader_Read_progress:
  assumes "SectionReader_Read s k = (d, None, s')" and "0 < k"
  shows "d \<noteq> [] \<and> sr_off s < sr_off s' \<and> sr_off s < sr_limit s
         \<and> sr_limit s' = sr_limit s"
proof -
  from assms(1) have lt: "sr_off s < sr_limit s"
    by (auto simp: SectionReader_Read_def split: if_splits)
  define k' where "k' = (if sr_limit s - sr_off s < int k then nat (sr_limit s - sr_off s) else k)"
  obtain d0 n e where ra: "ReadAt (sr_r s) k' (sr_off s) = (d0, n, e)"
    by (cases "ReadAt (sr_r s) k' (sr_off s)") auto
  from assms(1) lt ra have eqs: "d = take n d0" "e = None" "s' = s\<lparr>sr_off := sr_off s + int n\<rparr>"
    by (auto simp: SectionReader_Read_def Let_def k'_def)
  have "0 < k'" using lt assms(2) by (auto simp: k'_def)
  with ra eqs(2) have "0 < n \<and> n \<le> length d0"
    using ReadAt_progress by blast
  with eqs lt show ?thesis by auto
qed

text \<open>
  \<^verbatim>\<open>io.ReadFull(r, buf)\<close> with \<open>len(buf) = k\<close>: the loop of \<^verbatim>\<open>io.ReadAtLeast\<close>
  (\<^verbatim>\<open>for n < min && err == nil\<close>), then its translation of the error: none when the
  buffer is full, \<^verbatim>\<open>ErrUnexpectedEOF\<close> when some but not all bytes were read before
  \<^verbatim>\<open>EOF\<close>.
\<close>

function io_ReadFull_loop ::
  "SectionReader \<Rightarrow> nat \<Rightarrow> byte list \<Rightarrow> byte list \<times> error option \<times> SectionReader" where
  "io_ReadFull_loop s k buf =
     (if length buf < k
      then (case SectionReader_Read s (k - length buf) of
              (d, None, s') \<Rightarrow> io_ReadFull_loop s' k (buf @ d)
            | (d, Some e, s') \<Rightarrow> (buf @ d, Some e, s'))
      else (buf, None, s))"
  by pat_completeness auto
termination
  apply (relation "measure (\<lambda>(s, k, buf). k - length buf)")
   apply simp
  apply (auto dest!: SectionReader_Read_progress [OF sym] simp: neq_Nil_conv)
  done

declare io_ReadFull_loop.simps [simp del]

definition io_ReadFull ::
  "SectionReader \<Rightarrow> nat \<Rightarrow> byte list \<times> error option \<times> SectionReader" where
  "io_ReadFull s k =
     (case io_ReadFull_loop s k [] of
        (buf, err, s') \<Rightarrow>
          (buf,
           if k \<le> length buf then None
           else if 0 < length buf \<and> err = Some EOF then Some ErrUnexpectedEOF
           else err,
           s'))"

text \<open>
  \<^verbatim>\<open>io.Copy(w, src)\<close> into a sink whose \<^verbatim>\<open>Write\<close> always succeeds (an in-memory
  buffer): the loop of \<^verbatim>\<open>io.copyBuffer\<close> with its buffer of \<open>32 * 1024\<close> bytes. The
  result is the bytes written, the error (\<^verbatim>\<open>EOF\<close> ends the copy without an error), and
  the drained reader.
\<close>

function io_Copy :: "SectionReader \<Rightarrow> byte list \<times> error option \<times> SectionReader" where
  "io_Copy src =
     (case SectionReader_Read src 32768 of
        (d, None, src') \<Rightarrow>
          (case io_Copy src' of (out, err, src'') \<Rightarrow> (d @ out, err, src''))
      | (d, Some er, src') \<Rightarrow> (d, if er = EOF then None else Some er, src'))"
  by pat_completeness auto
termination
  apply (relation "measure (\<lambda>s. nat (sr_limit s - sr_off s))")
   apply simp
  apply (auto dest!: SectionReader_Read_progress [OF sym])
  done

declare io_Copy.simps [simp del]


section \<open>Package encoding/binary, little endian\<close>

text \<open>
  \<^verbatim>\<open>binary.LittleEndian.Uint32\<close> and \<^verbatim>\<open>PutUint32\<close>, and \<^verbatim>\<open>binary.Read(r,
  binary.LittleEndian, data)\<close> for a struct of \<open>n\<close> bytes: \<^verbatim>\<open>io.ReadFull\<close> into a
  buffer of that size, then the fields are decoded in order.
\<close>

definition LittleEndian_Uint32 :: "byte list \<Rightarrow> uint32" where
  "LittleEndian_Uint32 b =
     ucast (b ! 0) OR push_bit 8 (ucast (b ! 1)) OR push_bit 16 (ucast (b ! 2))
       OR push_bit 24 (ucast (b ! 3))"

definition LittleEndian_PutUint32 :: "uint32 \<Rightarrow> byte list" where
  "LittleEndian_PutUint32 v =
     [ucast v, ucast (drop_bit 8 v), ucast (drop_bit 16 v), ucast (drop_bit 24 v)]"

definition binary_Read :: "SectionReader \<Rightarrow> nat \<Rightarrow> (error + byte list) \<times> SectionReader" where
  "binary_Read r n =
     (case io_ReadFull r n of
        (buf, Some err, r') \<Rightarrow> (Inl err, r')
      | (buf, None, r') \<Rightarrow> (Inr buf, r'))"

section \<open>The data model of file.go\<close>

text \<open>
  The structs of file.go as records. Go lets several structs share a field name; here
  the shared names carry a suffix: \<open>Length\<close> is \<^verbatim>\<open>SectionHeader.Length\<close> and \<open>Length_w\<close>
  is \<^verbatim>\<open>WemDescriptor.Length\<close>; \<open>Header_b\<close>, \<open>Header_i\<close>, \<open>Header_d\<close>, \<open>Header_u\<close> are the
  \<^verbatim>\<open>Header\<close> fields of the BKHD, DIDX, DATA and unknown sections; \<open>Descriptor_b\<close> and
  \<open>RemainingReader_b\<close> belong to \<^verbatim>\<open>BankHeaderSection\<close>, \<open>Reader_u\<close> to
  \<^verbatim>\<open>UnknownSection\<close>, \<open>Wem_r\<close> and \<open>Length_r\<close> to \<^verbatim>\<open>ReplacementWem\<close>. A pointer that can
  be nil is an \<open>option\<close>. \<^verbatim>\<open>[4]byte\<close> is a 4-tuple of bytes.
\<close>

type_synonym ident = "byte \<times> byte \<times> byte \<times> byte"

definition bkhdHeaderId :: ident where
  "bkhdHeaderId = (0x42, 0x4B, 0x48, 0x44)"

definition didxHeaderId :: ident where
  "didxHeaderId = (0x44, 0x49, 0x44, 0x58)"

definition dataHeaderId :: ident where
  "dataHeaderId = (0x44, 0x41, 0x54, 0x41)"

record SectionHeader =
  Identifier :: ident
  Length :: uint32

record BankDescriptor =
  Version :: uint32
  BankId :: uint32

record WemDescriptor =
  WemId :: uint32
  Offset :: uint32
  Length_w :: uint32

record BankHeaderSection =
  Header_b :: SectionHeader
  Descriptor_b :: BankDescriptor
  RemainingReader_b :: SectionReader

record DataIndexSection =
  Header_i :: SectionHeader
  WemCount :: uint32
  WemIds :: "uint32 list"
  DescriptorMap :: "uint32 \<rightharpoonup> WemDescriptor"

record Wem =
  Reader :: SectionReader
  Descriptor :: WemDescriptor
  RemainingReader :: "SectionReader option"
  RemainingLength :: int

record DataSection =
  Header_d :: SectionHeader
  DataStart :: uint32
  Wems :: "Wem list"

record UnknownSection =
  Header_u :: SectionHeader
  Reader_u :: SectionReader

text \<open>An \<^verbatim>\<open>io.Closer\<close>: what its \<^verbatim>\<open>Close\<close> returns.\<close>

datatype closer = Closer (Close_result: "error option")

record File =
  closer :: "closer option"
  BankHeaderSection :: "BankHeaderSection option"
  IndexSection :: "DataIndexSection option"
  DataSection :: "DataSection option"
  Others :: "UnknownSection list"

record ReplacementWem =
  Wem_r :: ReaderAt
  WemIndex :: int
  Length_r :: int

text \<open>The layout of the three structs that \<^verbatim>\<open>binary.Read\<close> and \<^verbatim>\<open>binary.Write\<close> move.\<close>

definition decode_SectionHeader :: "byte list \<Rightarrow> SectionHeader" where
  "decode_SectionHeader buf =
     \<lparr>Identifier = (buf ! 0, buf ! 1, buf ! 2, buf ! 3),
      Length = LittleEndian_Uint32 (drop 4 buf)\<rparr>"

definition encode_SectionHeader :: "SectionHeader \<Rightarrow> byte list" where
  "encode_SectionHeader hdr =
     (case Identifier hdr of (a, b, c, d) \<Rightarrow> [a, b, c, d]) @ LittleEndian_PutUint32 (Length hdr)"

definition decode_BankDescriptor :: "byte list \<Rightarrow> BankDescriptor" where
  "decode_BankDescriptor buf =
     \<lparr>Version = LittleEndian_Uint32 buf, BankId = LittleEndian_Uint32 (drop 4 buf)\<rparr>"

definition encode_BankDescriptor :: "BankDescriptor \<Rightarrow> byte list" where
  "encode_BankDescriptor desc =
     LittleEndian_PutUint32 (Version desc) @ LittleEndian_PutUint32 (BankId desc)"

definition decode_WemDescriptor :: "byte list \<Rightarrow> WemDescriptor" where
  "decode_WemDescriptor buf =
     \<lparr>WemId = LittleEndian_Uint32 buf, Offset = LittleEndian_Uint32 (drop 4 buf),
      Length_w = LittleEndian_Uint32 (drop 8 buf)\<rparr>"

definition encode_WemDescriptor :: "WemDescriptor \<Rightarrow> byte list" where
  "encode_WemDescriptor desc =
     LittleEndian_PutUint32 (WemId desc) @ LittleEndian_PutUint32 (Offset desc)
       @ LittleEndian_PutUint32 (Length_w desc)"

text \<open>Reading a Go map at a key it does not hold gives the zero value.\<close>

definition lookup :: "(uint32 \<rightharpoonup> WemDescriptor) \<Rightarrow> uint32 \<Rightarrow> WemDescriptor" where
  "lookup m k =
     (case m k of None \<Rightarrow> \<lparr>WemId = 0, Offset = 0, Length_w = 0\<rparr> | Some desc \<Rightarrow> desc)"

section \<open>Parsing the sections\<close>

text \<open>
  Each constructor takes the section's header and the reader \<open>sr\<close> positioned after it,
  and returns the section with the reader advanced, or the error it returns, or its panic.
\<close>

definition NewBankHeaderSection ::
  "SectionHeader \<Rightarrow> SectionReader \<Rightarrow> failure + (BankHeaderSection \<times> SectionReader)" where
  "NewBankHeaderSection hdr sr =
     (if Identifier hdr \<noteq> bkhdHeaderId then Inl (Panic ExpectedBKHD)
      else case binary_Read sr 8 of
             (Inl err, sr1) \<Rightarrow> Inl (Error err)
           | (Inr buf, sr1) \<Rightarrow>
               (let desc = decode_BankDescriptor buf;
                    knownOffset = fst (fst (SectionReader_Seek sr1 0));
                    sr2 = snd (SectionReader_Seek sr1 0);
                    remaining = uint (Length hdr - 8);
                    rr = NewSectionReader (as_ReaderAt sr2) knownOffset remaining;
                    sr3 = snd (SectionReader_Seek sr2 remaining)
                in Inr (\<lparr>Header_b = hdr, Descriptor_b = desc, RemainingReader_b = rr\<rparr>, sr3)))"

text \<open>
  The loop of \<^verbatim>\<open>NewDataIndexSection\<close>, \<^verbatim>\<open>for i := uint32(0); i < wemCount; i++\<close>, by
  recursion on the number of iterations left.
\<close>

fun NewDataIndexSection_loop ::
  "nat \<Rightarrow> SectionReader \<Rightarrow> DataIndexSection \<Rightarrow> failure + (DataIndexSection \<times> SectionReader)" where
  "NewDataIndexSection_loop 0 r sec = Inr (sec, r)"
| "NewDataIndexSection_loop (Suc n) r sec =
     (case binary_Read r 12 of
        (Inl err, r') \<Rightarrow> Inl (Error err)
      | (Inr buf, r') \<Rightarrow>
          (let desc = decode_WemDescriptor buf
           in if DescriptorMap sec (WemId desc) \<noteq> None
              then Inl (Panic (RepeatedWemId (WemId desc)))
              else NewDataIndexSection_loop n r'
                     (sec\<lparr>WemIds := WemIds sec @ [WemId desc],
                          DescriptorMap := (DescriptorMap sec)(WemId desc \<mapsto> desc)\<rparr>)))"

definition NewDataIndexSection ::
  "SectionHeader \<Rightarrow> SectionReader \<Rightarrow> failure + (DataIndexSection \<times> SectionReader)" where
  "NewDataIndexSection hdr r =
     (if Identifier hdr \<noteq> didxHeaderId then Inl (Panic ExpectedDIDX)
      else let wemCount = Length hdr div 12;
               sec = \<lparr>Header_i = hdr, WemCount = wemCount, WemIds = [],
                      DescriptorMap = Map.empty\<rparr>
           in NewDataIndexSection_loop (unat wemCount) r sec)"

text \<open>
  The body of the loop of \<^verbatim>\<open>NewDataSection\<close> for the \<open>i\<close>-th wem id: \<open>sra\<close> is \<open>sr\<close> as
  the \<^verbatim>\<open>ReaderAt\<close> under the wem's readers.
\<close>

definition NewDataSection_wem ::
  "SectionHeader \<Rightarrow> ReaderAt \<Rightarrow> int \<Rightarrow> DataIndexSection \<Rightarrow> nat \<Rightarrow> Wem" where
  "NewDataSection_wem hdr sra dataOffset idx i =
     (let desc = lookup (DescriptorMap idx) (WemIds idx ! i);
          wemStartOffset = dataOffset + uint (Offset desc);
          wemReader = NewSectionReader sra wemStartOffset (uint (Length_w desc))
      in if int i \<le> int (length (WemIds idx)) - 1
         then (let wemEndOffset = wemStartOffset + uint (Length_w desc);
                   nextOffset =
                     (if int i = int (length (WemIds idx)) - 1
                      then dataOffset + uint (Length hdr)
                      else dataOffset
                             + uint (Offset (lookup (DescriptorMap idx) (WemIds idx ! (i + 1)))));
                   remaining = nextOffset - wemEndOffset
               in \<lparr>Reader = wemReader, Descriptor = desc,
                   RemainingReader = Some (NewSectionReader sra wemEndOffset remaining),
                   RemainingLength = remaining\<rparr>)
         else \<lparr>Reader = wemReader, Descriptor = desc, RemainingReader = None,
               RemainingLength = 0\<rparr>)"

definition NewDataSection ::
  "SectionHeader \<Rightarrow> SectionReader \<Rightarrow> DataIndexSection option
     \<Rightarrow> failure + (DataSection \<times> SectionReader)" where
  "NewDataSection hdr sr idx =
     (if Identifier hdr \<noteq> dataHeaderId then Inl (Panic ExpectedDATA)
      else let dataOffset = fst (fst (SectionReader_Seek sr 0));
               sr1 = snd (SectionReader_Seek sr 0)
           in case idx of
                None \<Rightarrow> Inl (Panic NilPointerDereference)
              | Some idx \<Rightarrow>
                  (let wems = map (NewDataSection_wem hdr (as_ReaderAt sr1) dataOffset idx)
                                [0..<length (WemIds idx)];
                       sr2 = snd (SectionReader_Seek sr1 (uint (Length hdr)))
                   in Inr (\<lparr>Header_d = hdr, DataStart = word_of_int dataOffset, Wems = wems\<rparr>,
                           sr2)))"

definition NewUnknownSection ::
  "SectionHeader \<Rightarrow> SectionReader \<Rightarrow> failure + (UnknownSection \<times> SectionReader)" where
  "NewUnknownSection hdr sr =
     (let dataOffset = fst (fst (SectionReader_Seek sr 0));
          sr1 = snd (SectionReader_Seek sr 0);
          r = NewSectionReader (as_ReaderAt sr1) dataOffset (uint (Length hdr));
          sr2 = snd (SectionReader_Seek sr1 (uint (Length hdr)))
      in Inr (\<lparr>Header_u = hdr, Reader_u = r\<rparr>, sr2))"

lemma take_min_length: "take (min (length xs) k) xs = take k xs"
  by (simp add: min_def)

lemma SectionReader_Read_Bytes:
  assumes "sr_r s = BytesReaderAt bs"
  shows "SectionReader_Read s k =
     (if sr_limit s \<le> sr_off s then ([], Some EOF, s)
      else if sr_off s < 0 then ([], Some ErrNegativeOffset, s)
      else if int (length bs) \<le> sr_off s then ([], Some EOF, s)
      else let k' = (if sr_limit s - sr_off s < int k then nat (sr_limit s - sr_off s) else k);
               d = take k' (drop (nat (sr_off s)) bs)
           in (d, if length d < k' then Some EOF else None, s\<lparr>sr_off := sr_off s + int (length d)\<rparr>))"
  using assms take_min_length [of "drop (nat (sr_off s)) bs"]
  by (auto simp: SectionReader_Read_def Let_def)

lemma io_ReadFull_Bytes:
  assumes r: "sr_r s = BytesReaderAt bs" and k: "0 < k"
  shows "io_ReadFull s k =
     (if sr_limit s \<le> sr_off s then ([], Some EOF, s)
      else if sr_off s < 0 then ([], Some ErrNegativeOffset, s)
      else if int (length bs) \<le> sr_off s then ([], Some EOF, s)
      else let d = take (min k (nat (sr_limit s - sr_off s))) (drop (nat (sr_off s)) bs)
           in (d, if length d = k then None else Some ErrUnexpectedEOF,
               s\<lparr>sr_off := sr_off s + int (length d)\<rparr>))"
proof -
  note R = SectionReader_Read_Bytes [OF r]
  consider (a) "sr_limit s \<le> sr_off s" | (b) "sr_off s < sr_limit s" "sr_off s < 0"
    | (c) "sr_off s < sr_limit s" "0 \<le> sr_off s" "int (length bs) \<le> sr_off s"
    | (d) "sr_off s < sr_limit s" "0 \<le> sr_off s" "sr_off s < int (length bs)"
    by linarith
  then show ?thesis
  proof cases
    case a
    with k show ?thesis
      by (simp add: io_ReadFull_def io_ReadFull_loop.simps [of s k "[]"] R)
  next
    case b
    with k show ?thesis
      by (simp add: io_ReadFull_def io_ReadFull_loop.simps [of s k "[]"] R)
  next
    case c
    with k show ?thesis
      by (simp add: io_ReadFull_def io_ReadFull_loop.simps [of s k "[]"] R)
  next
    case d
    define k' where "k' = (if sr_limit s - sr_off s < int k then nat (sr_limit s - sr_off s) else k)"
    define dd where "dd = take k' (drop (nat (sr_off s)) bs)"
    define s' where "s' = s\<lparr>sr_off := sr_off s + int (length dd)\<rparr>"
    have k'min: "k' = min k (nat (sr_limit s - sr_off s))"
      using d by (auto simp: k'_def min_def)
    have k'pos: "0 < k'" "k' \<le> k" using d k by (auto simp: k'_def)
    have rd: "SectionReader_Read s k = (dd, if length dd < k' then Some EOF else None, s')"
      using d by (simp add: R Let_def k'_def dd_def s'_def)
    have ddpos: "0 < length dd" using d k'pos by (simp add: dd_def)
    have ddle: "length dd \<le> k'" by (simp add: dd_def)
    have goal: "io_ReadFull s k = (dd, if length dd = k then None else Some ErrUnexpectedEOF, s')"
    proof (cases "length dd < k'")
      case True
      with k'pos ddpos rd k show ?thesis
        by (simp add: io_ReadFull_def io_ReadFull_loop.simps [of s k "[]"])
    next
      case False
      with ddle have len: "length dd = k'" by simp
      show ?thesis
      proof (cases "k' = k")
        case True
        with len rd k show ?thesis
          by (simp add: io_ReadFull_def io_ReadFull_loop.simps [of s k "[]"]
                io_ReadFull_loop.simps [of s' k dd])
      next
        case False
        with k'pos have lt: "k' < k" by simp
        then have "k' = nat (sr_limit s - sr_off s)" by (auto simp: k'_def split: if_splits)
        then have lim: "sr_limit s' \<le> sr_off s'" using len d by (simp add: s'_def)
        have r': "sr_r s' = BytesReaderAt bs" using r by (simp add: s'_def)
        have "SectionReader_Read s' (k - length dd) = ([], Some EOF, s')"
          using lim by (simp add: SectionReader_Read_Bytes [OF r'])
        with len rd k lt ddpos show ?thesis
          by (simp add: io_ReadFull_def io_ReadFull_loop.simps [of s k "[]"]
                io_ReadFull_loop.simps [of s' k dd])
      qed
    qed
    with d show ?thesis
      by (simp add: Let_def k'min dd_def s'_def)
  qed
qed


lemma binary_Read_Bytes_Inr:
  assumes rd: "binary_Read s k = (Inr buf, s')" and r: "sr_r s = BytesReaderAt bs" and k: "0 < k"
  shows "buf = take k (drop (nat (sr_off s)) bs) \<and> length buf = k \<and> 0 \<le> sr_off s
         \<and> sr_off s + int k \<le> int (length bs) \<and> sr_off s + int k \<le> sr_limit s
         \<and> s' = s\<lparr>sr_off := sr_off s + int k\<rparr>"
proof -
  define d where "d = take (min k (nat (sr_limit s - sr_off s))) (drop (nat (sr_off s)) bs)"
  have full: "io_ReadFull s k = (buf, None, s')"
    using rd by (auto simp: binary_Read_def split: prod.splits option.splits)
  have c: "sr_off s < sr_limit s" "0 \<le> sr_off s" "sr_off s < int (length bs)"
    using full by (auto simp: io_ReadFull_Bytes [OF r k] split: if_splits)
  with full have e: "buf = d" "length d = k" "s' = s\<lparr>sr_off := sr_off s + int (length d)\<rparr>"
    by (auto simp: io_ReadFull_Bytes [OF r k] Let_def d_def split: if_splits)
  from e(2) have m: "k \<le> nat (sr_limit s - sr_off s)" "k \<le> length bs - nat (sr_off s)"
    by (auto simp: d_def min_def split: if_splits)
  then have "d = take k (drop (nat (sr_off s)) bs)"
    by (simp add: d_def min_def)
  with e m c show ?thesis by auto
qed

lemma SectionReader_Seek_forward:
  assumes "0 \<le> offset"
  shows "sr_off s \<le> sr_off (snd (SectionReader_Seek s offset))
         \<and> snd (SectionReader_Seek s offset)
             = s\<lparr>sr_off := sr_off (snd (SectionReader_Seek s offset))\<rparr>"
  using assms by (simp add: SectionReader_Seek_def Let_def)

lemma NewBankHeaderSection_forward:
  assumes "NewBankHeaderSection hdr sr = Inr (sec, sr')" and "sr_r sr = BytesReaderAt bs"
  shows "sr_off sr \<le> sr_off sr' \<and> sr' = sr\<lparr>sr_off := sr_off sr'\<rparr>"
proof -
  from assms(1) obtain buf sr1 where rd: "binary_Read sr 8 = (Inr buf, sr1)"
    by (auto simp: NewBankHeaderSection_def split: if_splits prod.splits sum.splits)
  from binary_Read_Bytes_Inr [OF rd assms(2)]
  have sr1: "sr1 = sr\<lparr>sr_off := sr_off sr + 8\<rparr>" by simp
  define sr2 where "sr2 = snd (SectionReader_Seek sr1 0)"
  define sr3 where "sr3 = snd (SectionReader_Seek sr2 (uint (Length hdr - 8)))"
  have "sr' = sr3"
    using assms(1) rd
    by (auto simp: NewBankHeaderSection_def Let_def sr2_def sr3_def split: if_splits)
  moreover have s2: "sr_off sr1 \<le> sr_off sr2 \<and> sr2 = sr1\<lparr>sr_off := sr_off sr2\<rparr>"
    unfolding sr2_def by (rule SectionReader_Seek_forward) simp
  moreover have s3: "sr_off sr2 \<le> sr_off sr3 \<and> sr3 = sr2\<lparr>sr_off := sr_off sr3\<rparr>"
    unfolding sr3_def by (rule SectionReader_Seek_forward) simp
  moreover have "sr3 = sr\<lparr>sr_off := sr_off sr3\<rparr>"
    by (subst (1) conjunct2 [OF s3], subst (1) conjunct2 [OF s2], subst sr1) simp
  moreover have "sr_off sr \<le> sr_off sr1" by (simp add: sr1)
  ultimately show ?thesis by auto
qed

lemma NewDataIndexSection_loop_forward:
  assumes "NewDataIndexSection_loop n r sec = Inr (sec', r')" and "sr_r r = BytesReaderAt bs"
  shows "sr_off r \<le> sr_off r' \<and> r' = r\<lparr>sr_off := sr_off r'\<rparr>"
  using assms
proof (induction n arbitrary: r sec)
  case 0
  then show ?case by simp
next
  case (Suc n)
  from Suc.prems(1) obtain buf r1 where rd: "binary_Read r 12 = (Inr buf, r1)"
    by (auto split: prod.splits sum.splits)
  from binary_Read_Bytes_Inr [OF rd Suc.prems(2)]
  have r1: "r1 = r\<lparr>sr_off := sr_off r + 12\<rparr>" by simp
  then have r1r: "sr_r r1 = BytesReaderAt bs" using Suc.prems(2) by simp
  from Suc.prems(1) rd obtain sec1 where "NewDataIndexSection_loop n r1 sec1 = Inr (sec', r')"
    by (auto simp: Let_def split: if_splits)
  from Suc.IH [OF this r1r] have "sr_off r1 \<le> sr_off r'" "r' = r1\<lparr>sr_off := sr_off r'\<rparr>"
    by simp_all
  then show ?case
    by (simp add: r1)
qed

lemma NewDataIndexSection_forward:
  assumes "NewDataIndexSection hdr r = Inr (sec, r')" and "sr_r r = BytesReaderAt bs"
  shows "sr_off r \<le> sr_off r' \<and> r' = r\<lparr>sr_off := sr_off r'\<rparr>"
  using assms NewDataIndexSection_loop_forward
  by (auto simp: NewDataIndexSection_def Let_def split: if_splits)

lemma NewDataSection_forward:
  assumes "NewDataSection hdr sr idx = Inr (sec, sr')"
  shows "sr_off sr \<le> sr_off sr' \<and> sr' = sr\<lparr>sr_off := sr_off sr'\<rparr>"
proof -
  define sr1 where "sr1 = snd (SectionReader_Seek sr 0)"
  define sr2 where "sr2 = snd (SectionReader_Seek sr1 (uint (Length hdr)))"
  have "sr' = sr2"
    using assms
    by (auto simp: NewDataSection_def Let_def sr1_def sr2_def split: if_splits option.splits)
  moreover have s1: "sr_off sr \<le> sr_off sr1 \<and> sr1 = sr\<lparr>sr_off := sr_off sr1\<rparr>"
    unfolding sr1_def by (rule SectionReader_Seek_forward) simp
  moreover have s2: "sr_off sr1 \<le> sr_off sr2 \<and> sr2 = sr1\<lparr>sr_off := sr_off sr2\<rparr>"
    unfolding sr2_def by (rule SectionReader_Seek_forward) simp
  moreover have "sr2 = sr\<lparr>sr_off := sr_off sr2\<rparr>"
    by (subst (1) conjunct2 [OF s2], subst (1) conjunct2 [OF s1]) simp
  ultimately show ?thesis by auto
qed

lemma NewUnknownSection_forward:
  assumes "NewUnknownSection hdr sr = Inr (sec, sr')"
  shows "sr_off sr \<le> sr_off sr' \<and> sr' = sr\<lparr>sr_off := sr_off sr'\<rparr>"
proof -
  define sr1 where "sr1 = snd (SectionReader_Seek sr 0)"
  define sr2 where "sr2 = snd (SectionReader_Seek sr1 (uint (Length hdr)))"
  have "sr' = sr2"
    using assms
    by (auto simp: NewUnknownSection_def Let_def sr1_def sr2_def)
  moreover have s1: "sr_off sr \<le> sr_off sr1 \<and> sr1 = sr\<lparr>sr_off := sr_off sr1\<rparr>"
    unfolding sr1_def by (rule SectionReader_Seek_forward) simp
  moreover have s2: "sr_off sr1 \<le> sr_off sr2 \<and> sr2 = sr1\<lparr>sr_off := sr_off sr2\<rparr>"
    unfolding sr2_def by (rule SectionReader_Seek_forward) simp
  moreover have "sr2 = sr\<lparr>sr_off := sr_off sr2\<rparr>"
    by (subst (1) conjunct2 [OF s2], subst (1) conjunct2 [OF s1]) simp
  ultimately show ?thesis by auto
qed

definition source_reader :: "byte list \<Rightarrow> int \<Rightarrow> SectionReader" where
  "source_reader bs off = (NewSectionReader (BytesReaderAt bs) 0 maxint64)\<lparr>sr_off := off\<rparr>"

lemma NewFile_loop_header:
  assumes "(Inr buf, sr1) = binary_Read (source_reader bs off) 8"
  shows "sr_r sr1 = BytesReaderAt bs \<and> sr_off sr1 = off + 8 \<and> 0 \<le> off
         \<and> off + 8 \<le> int (length bs) \<and> buf = take 8 (drop (nat off) bs)
         \<and> sr1 = source_reader bs (off + 8)"
proof -
  have r: "sr_r (source_reader bs off) = BytesReaderAt bs"
    by (simp add: source_reader_def NewSectionReader_def Let_def)
  from binary_Read_Bytes_Inr [OF assms [symmetric] r]
  show ?thesis
    using r by (simp add: source_reader_def)
qed

lemma NewFile_loop_BKHD_decreases:
  assumes "(Inr buf, sr1) = binary_Read (source_reader bs off) 8"
    and "NewBankHeaderSection hdr sr1 = Inr res" and "(sec, sr') = res"
  shows "off < int (length bs) \<and> off < sr_off sr'"
  using NewFile_loop_header [OF assms(1)]
    NewBankHeaderSection_forward [of hdr sr1 sec sr' bs] assms(2,3)
  by auto

lemma NewFile_loop_DIDX_decreases:
  assumes "(Inr buf, sr1) = binary_Read (source_reader bs off) 8"
    and "NewDataIndexSection hdr sr1 = Inr res" and "(sec, sr') = res"
  shows "off < int (length bs) \<and> off < sr_off sr'"
  using NewFile_loop_header [OF assms(1)]
    NewDataIndexSection_forward [of hdr sr1 sec sr' bs] assms(2,3)
  by auto

lemma NewFile_loop_DATA_decreases:
  assumes "(Inr buf, sr1) = binary_Read (source_reader bs off) 8"
    and "NewDataSection hdr sr1 idx = Inr res" and "(sec, sr') = res"
  shows "off < int (length bs) \<and> off < sr_off sr'"
  using NewFile_loop_header [OF assms(1)]
    NewDataSection_forward [of hdr sr1 idx sec sr'] assms(2,3)
  by auto

lemma NewFile_loop_unknown_decreases:
  assumes "(Inr buf, sr1) = binary_Read (source_reader bs off) 8"
    and "NewUnknownSection hdr sr1 = Inr res" and "(sec, sr') = res"
  shows "off < int (length bs) \<and> off < sr_off sr'"
  using NewFile_loop_header [OF assms(1)]
    NewUnknownSection_forward [of hdr sr1 sec sr'] assms(2,3)
  by auto

function NewFile_loop :: "byte list \<Rightarrow> int \<Rightarrow> File \<Rightarrow> failure + File" where
  "NewFile_loop bs off bnk =
     (case binary_Read (source_reader bs off) 8 of
        (Inl err, sr) \<Rightarrow> if err = EOF then Inr bnk else Inl (Error err)
      | (Inr buf, sr) \<Rightarrow>
          (let hdr = decode_SectionHeader buf
           in if Identifier hdr = bkhdHeaderId
              then (case NewBankHeaderSection hdr sr of
                      Inl err \<Rightarrow> Inl err
                    | Inr (sec, sr') \<Rightarrow>
                        NewFile_loop bs (sr_off sr') (bnk\<lparr>BankHeaderSection := Some sec\<rparr>))
              else if Identifier hdr = didxHeaderId
              then (case NewDataIndexSection hdr sr of
                      Inl err \<Rightarrow> Inl err
                    | Inr (sec, sr') \<Rightarrow>
                        NewFile_loop bs (sr_off sr') (bnk\<lparr>IndexSection := Some sec\<rparr>))
              else if Identifier hdr = dataHeaderId
              then (case NewDataSection hdr sr (IndexSection bnk) of
                      Inl err \<Rightarrow> Inl err
                    | Inr (sec, sr') \<Rightarrow>
                        NewFile_loop bs (sr_off sr') (bnk\<lparr>DataSection := Some sec\<rparr>))
              else (case NewUnknownSection hdr sr of
                      Inl err \<Rightarrow> Inl err
                    | Inr (sec, sr') \<Rightarrow>
                        NewFile_loop bs (sr_off sr') (bnk\<lparr>Others := Others bnk @ [sec]\<rparr>))))"
  by pat_completeness auto
termination
  apply (relation "measure (\<lambda>(bs, off, bnk). nat (int (length bs) - off))")
      apply simp_all
     apply (erule (2) NewFile_loop_BKHD_decreases)
    apply (erule (2) NewFile_loop_DIDX_decreases)
   apply (erule (2) NewFile_loop_DATA_decreases)
  apply (erule (2) NewFile_loop_unknown_decreases)
  done

declare NewFile_loop.simps [simp del]

text \<open>
  \<^verbatim>\<open>NewFile\<close> (file.go, lines 36 to 83): \<^verbatim>\<open>bnk := new(File)\<close>, the loop over the
  sections, and the final check that a DATA section was found.
\<close>

definition new_File :: File where
  "new_File = \<lparr>closer = None, BankHeaderSection = None, IndexSection = None,
               DataSection = None, Others = []\<rparr>"

definition NewFile :: "byte list \<Rightarrow> failure + File" where
  "NewFile r =
     (case NewFile_loop r (sr_off (NewSectionReader (BytesReaderAt r) 0 maxint64)) new_File of
        Inl err \<Rightarrow> Inl err
      | Inr bnk \<Rightarrow> if DataSection bnk = None then Inl (Error ErrNoWems) else Inr bnk)"

text \<open>
  file.go holds a second definition of \<^verbatim>\<open>NewFile\<close> (lines 295 to 338), with the same
  loop and no final check.
\<close>

definition NewFile2 :: "byte list \<Rightarrow> failure + File" where
  "NewFile2 r = NewFile_loop r (sr_off (NewSectionReader (BytesReaderAt r) 0 maxint64)) new_File"

section \<open>Writing the sections\<close>

text \<open>
  The writer \<open>w\<close> is an in-memory sink whose \<^verbatim>\<open>Write\<close> always succeeds, so
  \<^verbatim>\<open>binary.Write\<close> returns no error. Each \<^verbatim>\<open>WriteTo\<close> returns the bytes it appends to
  \<open>w\<close>, its results \<^verbatim>\<open>(written, err)\<close>, and the section with its readers drained.
\<close>

definition BankHeaderSection_WriteTo ::
  "BankHeaderSection \<Rightarrow> (byte list \<times> int \<times> error option) \<times> BankHeaderSection" where
  "BankHeaderSection_WriteTo hdr =
     (let out1 = encode_SectionHeader (Header_b hdr);
          written = 8;
          out2 = encode_BankDescriptor (Descriptor_b hdr);
          written = written + 8
      in case io_Copy (RemainingReader_b hdr) of
           (out3, err, rr) \<Rightarrow>
             (if err \<noteq> None
              then ((out1 @ out2 @ out3, written, err), hdr\<lparr>RemainingReader_b := rr\<rparr>)
              else ((out1 @ out2 @ out3, written + int (length out3), None),
                    hdr\<lparr>RemainingReader_b := rr\<rparr>)))"

fun DataIndexSection_WriteTo_loop ::
  "(uint32 \<rightharpoonup> WemDescriptor) \<Rightarrow> uint32 list \<Rightarrow> byte list \<times> int \<Rightarrow> byte list \<times> int" where
  "DataIndexSection_WriteTo_loop m [] (out, written) = (out, written)"
| "DataIndexSection_WriteTo_loop m (id' # ids) (out, written) =
     DataIndexSection_WriteTo_loop m ids
       (out @ encode_WemDescriptor (lookup m id'), written + 12)"

definition DataIndexSection_WriteTo ::
  "DataIndexSection \<Rightarrow> byte list \<times> int \<times> error option" where
  "DataIndexSection_WriteTo idx =
     (case DataIndexSection_WriteTo_loop (DescriptorMap idx) (WemIds idx)
             (encode_SectionHeader (Header_i idx), 8) of
        (out, written) \<Rightarrow> (out, written, None))"

fun DataSection_WriteTo_loop ::
  "Wem list \<Rightarrow> panic + ((byte list \<times> int \<times> error option) \<times> Wem list)" where
  "DataSection_WriteTo_loop [] = Inr (([], 0, None), [])"
| "DataSection_WriteTo_loop (wem # wems) =
     (case io_Copy (Reader wem) of
        (out1, err1, r1) \<Rightarrow>
          (if err1 \<noteq> None then Inr ((out1, 0, err1), wem\<lparr>Reader := r1\<rparr> # wems)
           else case RemainingReader wem of
                  None \<Rightarrow> Inl NilPointerDereference
                | Some rr \<Rightarrow>
                    (case io_Copy rr of
                       (out2, err2, r2) \<Rightarrow>
                         (let wem' = wem\<lparr>Reader := r1, RemainingReader := Some r2\<rparr>
                          in if err2 \<noteq> None
                             then Inr ((out1 @ out2, int (length out1), err2), wem' # wems)
                             else case DataSection_WriteTo_loop wems of
                                    Inl p \<Rightarrow> Inl p
                                  | Inr ((out, written, err), wems') \<Rightarrow>
                                      Inr ((out1 @ out2 @ out,
                                            int (length out1) + int (length out2) + written,
                                            err),
                                           wem' # wems')))))"

definition DataSection_WriteTo ::
  "DataSection \<Rightarrow> panic + ((byte list \<times> int \<times> error option) \<times> DataSection)" where
  "DataSection_WriteTo data =
     (case DataSection_WriteTo_loop (Wems data) of
        Inl p \<Rightarrow> Inl p
      | Inr ((out, written, err), wems') \<Rightarrow>
          Inr ((encode_SectionHeader (Header_d data) @ out, 8 + written, err),
               data\<lparr>Wems := wems'\<rparr>))"

definition UnknownSection_WriteTo ::
  "UnknownSection \<Rightarrow> (byte list \<times> int \<times> error option) \<times> UnknownSection" where
  "UnknownSection_WriteTo unknown =
     (let out1 = encode_SectionHeader (Header_u unknown);
          written = 8
      in case io_Copy (Reader_u unknown) of
           (out2, err, r) \<Rightarrow>
             (if err \<noteq> None
              then ((out1 @ out2, written, err), unknown\<lparr>Reader_u := r\<rparr>)
              else ((out1 @ out2, written + int (length out2), None),
                    unknown\<lparr>Reader_u := r\<rparr>)))"

text \<open>The loop of \<^verbatim>\<open>File.WriteTo\<close> over \<^verbatim>\<open>bnk.Others\<close>.\<close>

fun File_WriteTo_others ::
  "UnknownSection list \<Rightarrow> (byte list \<times> int \<times> error option) \<times> UnknownSection list" where
  "File_WriteTo_others [] = (([], 0, None), [])"
| "File_WriteTo_others (other # others) =
     (case UnknownSection_WriteTo other of
        ((out1, n, err), other') \<Rightarrow>
          (if err \<noteq> None then ((out1, 0, err), other' # others)
           else case File_WriteTo_others others of
                  ((out, written, err'), others') \<Rightarrow>
                    ((out1 @ out, n + written, err'), other' # others')))"

definition File_WriteTo ::
  "File \<Rightarrow> panic + ((byte list \<times> int \<times> error option) \<times> File)" where
  "File_WriteTo bnk =
     (case BankHeaderSection bnk of
        None \<Rightarrow> Inl NilPointerDereference
      | Some bkhd \<Rightarrow>
         (case BankHeaderSection_WriteTo bkhd of
            ((out1, written, err), bkhd') \<Rightarrow>
              (let bnk1 = bnk\<lparr>BankHeaderSection := Some bkhd'\<rparr>
               in if err \<noteq> None then Inr ((out1, written, err), bnk1)
                  else case IndexSection bnk of
                    None \<Rightarrow> Inl NilPointerDereference
                  | Some idx \<Rightarrow>
                     (case DataIndexSection_WriteTo idx of
                        (out2, n, err) \<Rightarrow>
                          (if err \<noteq> None then Inr ((out1 @ out2, written, err), bnk1)
                           else let written = written + n
                             in case DataSection bnk of
                               None \<Rightarrow> Inl NilPointerDereference
                             | Some data \<Rightarrow>
                                (case DataSection_WriteTo data of
                                   Inl p \<Rightarrow> Inl p
                                 | Inr ((out3, n, err), data') \<Rightarrow>
                                    (let bnk2 = bnk1\<lparr>DataSection := Some data'\<rparr>
                                     in if err \<noteq> None
                                        then Inr ((out1 @ out2 @ out3, written, err), bnk2)
                                        else let written = written + n
                                          in case File_WriteTo_others (Others bnk) of
                                               ((out4, m, err), others') \<Rightarrow>
                                                 Inr ((out1 @ out2 @ out3 @ out4, written + m, err),
                                                      bnk2\<lparr>Others := others'\<rparr>))))))))"

section \<open>Replacing wems\<close>

text \<open>
  \<^verbatim>\<open>ReplaceWem\<close> and \<^verbatim>\<open>ReplaceWems\<close> mutate the \<^verbatim>\<open>File\<close> in place and panic in the
  middle, so each returns the \<^verbatim>\<open>File\<close> as the call leaves it together with the panic,
  if any. \<open>ReplaceWems_step\<close> is the body of the loop of \<^verbatim>\<open>ReplaceWems\<close>.
\<close>

definition ReplaceWem :: "File \<Rightarrow> int \<Rightarrow> ReaderAt \<Rightarrow> int \<Rightarrow> File \<times> panic option" where
  "ReplaceWem bnk i r length' =
     (case DataSection bnk of
        None \<Rightarrow> (bnk, Some NilPointerDereference)
      | Some data \<Rightarrow>
          if i < 0 \<or> int (length (Wems data)) \<le> i then (bnk, Some IndexOutOfRange)
          else let wem = Wems data ! nat i;
                   oldLength = uint (Length_w (Descriptor wem))
               in if oldLength < length' then (bnk, Some LargerWemUnsupported)
                  else let diff = int64 (oldLength - length');
                           remaining = int64 (diff + RemainingLength wem);
                           oldDesc = Descriptor wem;
                           desc = \<lparr>WemId = WemId oldDesc, Offset = Offset oldDesc,
                                   Length_w = word_of_int length'\<rparr>;
                           wem' = wem\<lparr>Reader := NewSectionReader r 0 length',
                                      RemainingReader :=
                                        Some (NewSectionReader (InfiniteReaderAt 0) 0 remaining),
                                      Descriptor := desc\<rparr>;
                           bnk' = bnk\<lparr>DataSection :=
                                        Some (data\<lparr>Wems := (Wems data)[nat i := wem']\<rparr>)\<rparr>
                       in case IndexSection bnk of
                            None \<Rightarrow> (bnk', Some NilPointerDereference)
                          | Some idx \<Rightarrow>
                              (bnk'\<lparr>IndexSection :=
                                      Some (idx\<lparr>DescriptorMap :=
                                                  (DescriptorMap idx)(WemId desc \<mapsto> desc)\<rparr>)\<rparr>,
                               None))"

definition ReplaceWems_step :: "File \<Rightarrow> ReplacementWem \<Rightarrow> File \<times> panic option" where
  "ReplaceWems_step bnk r =
     (let length' = Length_r r
      in case DataSection bnk of
        None \<Rightarrow> (bnk, Some NilPointerDereference)
      | Some data \<Rightarrow>
          if WemIndex r < 0 \<or> int (length (Wems data)) \<le> WemIndex r
          then (bnk, Some IndexOutOfRange)
          else let wem = Wems data ! nat (WemIndex r);
                   oldLength = uint (Length_w (Descriptor wem))
               in if oldLength < length'
                  then (bnk, Some (LargerWemUnsupportedAt (WemIndex r) length' oldLength))
                  else let diff = int64 (oldLength - length');
                           remaining = int64 (diff + RemainingLength wem);
                           oldDesc = Descriptor wem;
                           desc = \<lparr>WemId = WemId oldDesc, Offset = Offset oldDesc,
                                   Length_w = word_of_int length'\<rparr>;
                           wem' = wem\<lparr>Reader := NewSectionReader (Wem_r r) 0 length',
                                      RemainingReader :=
                                        Some (NewSectionReader (InfiniteReaderAt 0) 0 remaining),
                                      Descriptor := desc\<rparr>;
                           bnk' = bnk\<lparr>DataSection :=
                                        Some (data\<lparr>Wems := (Wems data)[nat (WemIndex r) := wem']\<rparr>)\<rparr>
                       in case IndexSection bnk of
                            None \<Rightarrow> (bnk', Some NilPointerDereference)
                          | Some idx \<Rightarrow>
                              (bnk'\<lparr>IndexSection :=
                                      Some (idx\<lparr>DescriptorMap :=
                                                  (DescriptorMap idx)(WemId desc \<mapsto> desc)\<rparr>)\<rparr>,
                               None))"

fun ReplaceWems :: "File \<Rightarrow> ReplacementWem list \<Rightarrow> File \<times> panic option" where
  "ReplaceWems bnk [] = (bnk, None)"
| "ReplaceWems bnk (r # replacements) =
     (case ReplaceWems_step bnk r of
        (bnk', Some p) \<Rightarrow> (bnk', Some p)
      | (bnk', None) \<Rightarrow> ReplaceWems bnk' replacements)"

section \<open>Open and Close\<close>

text \<open>
  \<^verbatim>\<open>Open\<close> takes \<^verbatim>\<open>os.Open\<close> as a parameter: for a path, an error or the opened file,
  its bytes and its closer.
\<close>

definition Open :: "(string \<Rightarrow> error + (byte list \<times> closer)) \<Rightarrow> string \<Rightarrow> failure + File" where
  "Open os_Open path =
     (case os_Open path of
        Inl err \<Rightarrow> Inl (Error err)
      | Inr (f_bytes, f) \<Rightarrow>
          (case NewFile f_bytes of
             Inl err \<Rightarrow> Inl err
           | Inr bnk \<Rightarrow> Inr (bnk\<lparr>closer := Some f\<rparr>)))"

definition Close :: "File \<Rightarrow> error option \<times> File" where
  "Close bnk =
     (case closer bnk of
        None \<Rightarrow> (None, bnk)
      | Some c \<Rightarrow> (Close_result c, bnk\<lparr>closer := None\<rparr>))"

lemma source_reader_simps:
  "sr_r (source_reader bs off) = BytesReaderAt bs"
  "sr_base (source_reader bs off) = 0"
  "sr_off (source_reader bs off) = off"
  "sr_limit (source_reader bs off) = maxint64"
  by (simp_all add: source_reader_def NewSectionReader_def Let_def int64_def maxint64_def)

lemma source_reader_update [simp]:
  "(source_reader bs off)\<lparr>sr_off := off'\<rparr> = source_reader bs off'"
  by (simp add: source_reader_def)

lemma binary_Read_source:
  "0 < k \<Longrightarrow> binary_Read (source_reader bs off) k =
     (if maxint64 \<le> off then (Inl EOF, source_reader bs off)
      else if off < 0 then (Inl ErrNegativeOffset, source_reader bs off)
      else if int (length bs) \<le> off then (Inl EOF, source_reader bs off)
      else let d = take (min k (nat (maxint64 - off))) (drop (nat off) bs)
           in if length d = k then (Inr d, source_reader bs (off + int k))
              else (Inl ErrUnexpectedEOF, source_reader bs (off + int (length d))))"
  unfolding binary_Read_def
  by (subst io_ReadFull_Bytes [OF source_reader_simps(1)])
     (simp_all add: source_reader_simps Let_def)


lemma NewFile_loop_invariant:
  assumes "NewFile_loop bs off bnk = Inr bnk'" and "P bnk"
    and bkhd: "\<And>bnk hdr sr sec sr'. P bnk \<Longrightarrow> Identifier hdr = bkhdHeaderId
          \<Longrightarrow> NewBankHeaderSection hdr sr = Inr (sec, sr')
          \<Longrightarrow> P (bnk\<lparr>BankHeaderSection := Some sec\<rparr>)"
    and didx: "\<And>bnk hdr sr sec sr'. P bnk \<Longrightarrow> Identifier hdr = didxHeaderId
          \<Longrightarrow> NewDataIndexSection hdr sr = Inr (sec, sr')
          \<Longrightarrow> P (bnk\<lparr>IndexSection := Some sec\<rparr>)"
    and data: "\<And>bnk hdr sr sec sr'. P bnk \<Longrightarrow> Identifier hdr = dataHeaderId
          \<Longrightarrow> NewDataSection hdr sr (IndexSection bnk) = Inr (sec, sr')
          \<Longrightarrow> P (bnk\<lparr>DataSection := Some sec\<rparr>)"
    and unknown: "\<And>bnk hdr sr sec sr'. P bnk
          \<Longrightarrow> NewUnknownSection hdr sr = Inr (sec, sr')
          \<Longrightarrow> P (bnk\<lparr>Others := Others bnk @ [sec]\<rparr>)"
  shows "P bnk'"
  using assms(1,2)
proof (induction bs off bnk rule: NewFile_loop.induct)
  case (1 bs off bnk)
  show ?case
  proof (cases "binary_Read (source_reader bs off) 8")
    case (Pair res sr)
    show ?thesis
    proof (cases res)
      case (Inl err)
      with Pair "1.prems" show ?thesis
        by (subst (asm) NewFile_loop.simps) (simp split: if_splits)
    next
      case (Inr buf)
      note step = "1.prems"(1) [unfolded NewFile_loop.simps [of bs off bnk] Pair Inr, simplified Let_def, simplified]
      note IH = "1.IH" [OF Pair [symmetric] Inr refl]
      consider (b) "Identifier (decode_SectionHeader buf) = bkhdHeaderId"
        | (i) "Identifier (decode_SectionHeader buf) \<noteq> bkhdHeaderId"
              "Identifier (decode_SectionHeader buf) = didxHeaderId"
        | (d) "Identifier (decode_SectionHeader buf) \<noteq> bkhdHeaderId"
              "Identifier (decode_SectionHeader buf) \<noteq> didxHeaderId"
              "Identifier (decode_SectionHeader buf) = dataHeaderId"
        | (u) "Identifier (decode_SectionHeader buf) \<noteq> bkhdHeaderId"
              "Identifier (decode_SectionHeader buf) \<noteq> didxHeaderId"
              "Identifier (decode_SectionHeader buf) \<noteq> dataHeaderId"
        by blast
      then show ?thesis
      proof cases
        case b
        with step obtain sec sr' where
          p: "NewBankHeaderSection (decode_SectionHeader buf) sr = Inr (sec, sr')"
          and l: "NewFile_loop bs (sr_off sr') (bnk\<lparr>BankHeaderSection := Some sec\<rparr>) = Inr bnk'"
          by (auto split: sum.splits)
        from IH(1) [OF b p refl l bkhd [OF "1.prems"(2) b p]] show ?thesis .
      next
        case i
        with step obtain sec sr' where
          p: "NewDataIndexSection (decode_SectionHeader buf) sr = Inr (sec, sr')"
          and l: "NewFile_loop bs (sr_off sr') (bnk\<lparr>IndexSection := Some sec\<rparr>) = Inr bnk'"
          by (auto split: sum.splits)
        from IH(2) [OF i p refl l didx [OF "1.prems"(2) i(2) p]] show ?thesis .
      next
        case d
        with step obtain sec sr' where
          p: "NewDataSection (decode_SectionHeader buf) sr (IndexSection bnk) = Inr (sec, sr')"
          and l: "NewFile_loop bs (sr_off sr') (bnk\<lparr>DataSection := Some sec\<rparr>) = Inr bnk'"
          by (auto split: sum.splits)
        from IH(3) [OF d p refl l data [OF "1.prems"(2) d(3) p]] show ?thesis .
      next
        case u
        with step obtain sec sr' where
          p: "NewUnknownSection (decode_SectionHeader buf) sr = Inr (sec, sr')"
          and l: "NewFile_loop bs (sr_off sr') (bnk\<lparr>Others := Others bnk @ [sec]\<rparr>) = Inr bnk'"
          by (auto split: sum.splits)
        from IH(4) [OF u p refl l unknown [OF "1.prems"(2) p]] show ?thesis .
      qed
    qed
  qed
qed


lemma NewFile_loop_closer:
  "NewFile_loop bs off bnk = Inr bnk' \<Longrightarrow> closer bnk' = closer bnk"
  by (erule NewFile_loop_invariant [where P = "\<lambda>b. closer b = closer bnk"]) simp_all

definition Close_after :: "nat \<Rightarrow> File \<Rightarrow> File" where
  "Close_after n bnk = ((\<lambda>b. snd (Close b)) ^^ n) bnk"

lemma Close_after_closer: "0 < n \<Longrightarrow> Close_after n bnk = bnk\<lparr>closer := None\<rparr>"
proof (induction n)
  case 0
  then show ?case by simp
next
  case (Suc n)
  then show ?case
    by (cases n) (auto simp: Close_after_def Close_def split: option.splits)
qed

text \<open>
  Claim C10 (Close idempotence). \<open>Close_after n bnk\<close> is the \<^verbatim>\<open>File\<close> after \<open>n\<close> calls of
  \<^verbatim>\<open>Close\<close>. After at least one call, a further call returns nil and leaves the \<^verbatim>\<open>File\<close> as
  the first call left it; and on a \<^verbatim>\<open>File\<close> returned by \<^verbatim>\<open>NewFile\<close> (either definition),
  \<^verbatim>\<open>Close\<close> returns nil and changes nothing.
\<close>

theorem Close_idempotent:
  "(0 < n \<longrightarrow> Close (Close_after n bnk) = (None, Close_after n bnk)
              \<and> Close_after n bnk = snd (Close bnk))
   \<and> (NewFile r = Inr f \<longrightarrow> Close f = (None, f))
   \<and> (NewFile2 r = Inr f2 \<longrightarrow> Close f2 = (None, f2))"
proof (intro conjI impI)
  assume n: "0 < n"
  then show "Close (Close_after n bnk) = (None, Close_after n bnk)"
    by (simp add: Close_after_closer Close_def)
  from n show "Close_after n bnk = snd (Close bnk)"
    by (simp add: Close_after_closer Close_def split: option.splits)
next
  assume "NewFile r = Inr f"
  then have "closer f = None"
    by (auto simp: NewFile_def new_File_def split: sum.splits if_splits
        dest!: NewFile_loop_closer)
  then show "Close f = (None, f)" by (simp add: Close_def)
next
  assume "NewFile2 r = Inr f2"
  then have "closer f2 = None"
    by (auto simp: NewFile2_def new_File_def dest!: NewFile_loop_closer)
  then show "Close f2 = (None, f2)" by (simp add: Close_def)
qed


lemma NewFile_loop_EOF:
  assumes "int (length bs) \<le> off" and "0 \<le> off"
  shows "NewFile_loop bs off bnk = Inr bnk"
  using assms by (subst NewFile_loop.simps) (simp add: binary_Read_source)

lemma NewFile_loop_chunk:
  assumes "0 \<le> off" and "off + 8 \<le> int (length bs)" and "int (length bs) \<le> maxint64"
  shows "NewFile_loop bs off bnk =
     (let hdr = decode_SectionHeader (take 8 (drop (nat off) bs));
          sr = source_reader bs (off + 8)
      in if Identifier hdr = bkhdHeaderId
         then (case NewBankHeaderSection hdr sr of
                 Inl err \<Rightarrow> Inl err
               | Inr (sec, sr') \<Rightarrow>
                   NewFile_loop bs (sr_off sr') (bnk\<lparr>BankHeaderSection := Some sec\<rparr>))
         else if Identifier hdr = didxHeaderId
         then (case NewDataIndexSection hdr sr of
                 Inl err \<Rightarrow> Inl err
               | Inr (sec, sr') \<Rightarrow>
                   NewFile_loop bs (sr_off sr') (bnk\<lparr>IndexSection := Some sec\<rparr>))
         else if Identifier hdr = dataHeaderId
         then (case NewDataSection hdr sr (IndexSection bnk) of
                 Inl err \<Rightarrow> Inl err
               | Inr (sec, sr') \<Rightarrow>
                   NewFile_loop bs (sr_off sr') (bnk\<lparr>DataSection := Some sec\<rparr>))
         else (case NewUnknownSection hdr sr of
                 Inl err \<Rightarrow> Inl err
               | Inr (sec, sr') \<Rightarrow>
                   NewFile_loop bs (sr_off sr') (bnk\<lparr>Others := Others bnk @ [sec]\<rparr>)))"
proof -
  have m: "min 8 (nat (maxint64 - off)) = 8" using assms by auto
  have l: "length (take 8 (drop (nat off) bs)) = 8" using assms by auto
  have rd: "binary_Read (source_reader bs off) 8
      = (Inr (take 8 (drop (nat off) bs)), source_reader bs (off + 8))"
    using assms by (simp add: binary_Read_source m l del: length_take)
  show ?thesis
    by (subst NewFile_loop.simps) (simp add: rd Let_def)
qed

definition example_bank :: "byte list" where
  "example_bank =
     [0x44, 0x49, 0x44, 0x58, 0, 0, 0, 0,
      0x44, 0x41, 0x54, 0x41, 0, 0, 0, 0]"

definition example_File :: File where
  "example_File =
     \<lparr>closer = None, BankHeaderSection = None,
      IndexSection = Some \<lparr>Header_i = \<lparr>Identifier = didxHeaderId, Length = 0\<rparr>, WemCount = 0,
                           WemIds = [], DescriptorMap = Map.empty\<rparr>,
      DataSection = Some \<lparr>Header_d = \<lparr>Identifier = dataHeaderId, Length = 0\<rparr>, DataStart = 16,
                         Wems = []\<rparr>,
      Others = []\<rparr>"

lemmas parse_eval =
  NewFile_def NewFile2_def new_File_def NewSectionReader_def int64_def maxint64_def Let_def
  NewFile_loop_chunk NewFile_loop_EOF decode_SectionHeader_def decode_BankDescriptor_def
  decode_WemDescriptor_def LittleEndian_Uint32_def bkhdHeaderId_def didxHeaderId_def
  dataHeaderId_def NewBankHeaderSection_def NewDataIndexSection_def NewDataSection_def
  NewUnknownSection_def NewDataSection_wem_def SectionReader_Seek_def source_reader_simps
  binary_Read_source as_ReaderAt_def lookup_def

lemma NewFile_example_bank: "NewFile example_bank = Inr example_File"
  by (simp add: example_bank_def example_File_def parse_eval)

lemma NewFile2_example_bank: "NewFile2 example_bank = Inr example_File"
  by (simp add: example_bank_def example_File_def parse_eval)

theorem Close_idempotent_witness:
  "0 < (1::nat)
   \<and> Close (Close_after 1 (example_File\<lparr>closer := Some (Closer None)\<rparr>))
       = (None, Close_after 1 (example_File\<lparr>closer := Some (Closer None)\<rparr>))
   \<and> NewFile example_bank = Inr example_File \<and> Close example_File = (None, example_File)
   \<and> NewFile2 example_bank = Inr example_File"
  using Close_idempotent [of 1 "example_File\<lparr>closer := Some (Closer None)\<rparr>"
      example_bank example_File example_File]
    NewFile_example_bank NewFile2_example_bank
  by (simp add: Close_def)

lemma LittleEndian_Uint32_PutUint32 [simp]:
  "LittleEndian_Uint32 (LittleEndian_PutUint32 v) = v"
proof (rule bit_word_eqI)
  fix n :: nat
  assume "n < LENGTH(32)"
  then have n: "n < 32" by simp
  have a: "n \<ge> 8 \<Longrightarrow> 8 + (n - 8) = n" and b: "n \<ge> 16 \<Longrightarrow> 16 + (n - 16) = n"
    and c: "n \<ge> 24 \<Longrightarrow> 24 + (n - 24) = n" by simp_all
  consider "n < 8" | "8 \<le> n" "n < 16" | "16 \<le> n" "n < 24" | "24 \<le> n" "n < 32"
    using n by linarith
  then show "bit (LittleEndian_Uint32 (LittleEndian_PutUint32 v)) n = bit v n"
    unfolding LittleEndian_Uint32_def LittleEndian_PutUint32_def
    by cases (auto simp: bit_simps a b c)
qed

lemma LittleEndian_PutUint32_Uint32 [simp]:
  "LittleEndian_PutUint32 (LittleEndian_Uint32 [a, b, c, d]) = [a, b, c, d]"
proof -
  have "\<And>(x :: byte) n. bit x n \<Longrightarrow> n < 8"
    by (auto dest: bit_imp_le_length)
  then have nb: "\<And>(x :: byte) n k. k \<ge> 8 \<Longrightarrow> \<not> bit x (k + n)" "\<And>(x :: byte) n k. k \<ge> 8 \<Longrightarrow> \<not> bit x (n + k)"
    by fastforce+
  show ?thesis
    unfolding LittleEndian_Uint32_def LittleEndian_PutUint32_def
    apply simp
    apply (intro conjI)
       apply (rule bit_word_eqI, auto simp: bit_simps nb)[1]
      apply (rule bit_word_eqI, auto simp: bit_simps nb)[1]
     apply (rule bit_word_eqI, auto simp: bit_simps nb)[1]
    apply (rule bit_word_eqI, auto simp: bit_simps nb)[1]
    done
qed

definition reads_bytes :: "SectionReader \<Rightarrow> byte list \<Rightarrow> bool" where
  "reads_bytes s bs \<longleftrightarrow>
     0 \<le> sr_off s \<and>
     (sr_r s = BytesReaderAt bs
      \<or> (\<exists>M. sr_r s = SectionReaderAt (BytesReaderAt bs) 0 M \<and> sr_limit s \<le> M))"

lemma SectionReader_Read_reads_bytes:
  assumes "reads_bytes s bs"
  shows "SectionReader_Read s k =
     (if sr_limit s \<le> sr_off s then ([], Some EOF, s)
      else if int (length bs) \<le> sr_off s then ([], Some EOF, s)
      else let k' = (if sr_limit s - sr_off s < int k then nat (sr_limit s - sr_off s) else k);
               d = take k' (drop (nat (sr_off s)) bs)
           in (d, if length d < k' then Some EOF else None, s\<lparr>sr_off := sr_off s + int (length d)\<rparr>))"
proof -
  from assms have off: "0 \<le> sr_off s" by (simp add: reads_bytes_def)
  show ?thesis
  proof (cases "sr_r s = BytesReaderAt bs")
    case True
    with off show ?thesis by (simp add: SectionReader_Read_Bytes)
  next
    case False
    with assms obtain M where "sr_r s = SectionReaderAt (BytesReaderAt bs) 0 M" "sr_limit s \<le> M"
      by (auto simp: reads_bytes_def)
    with off take_min_length [of "drop (nat (sr_off s)) bs"] show ?thesis
      by (auto simp: SectionReader_Read_def Let_def)
  qed
qed

lemma reads_bytes_advance:
  "reads_bytes s bs \<Longrightarrow> 0 \<le> n \<Longrightarrow> reads_bytes (s\<lparr>sr_off := sr_off s + n\<rparr>) bs"
  by (auto simp: reads_bytes_def)

lemma io_Copy_reads_bytes:
  assumes "reads_bytes s bs"
  shows "fst (io_Copy s) = take (nat (sr_limit s - sr_off s)) (drop (nat (sr_off s)) bs)
         \<and> fst (snd (io_Copy s)) = None"
  using assms
proof (induction s rule: io_Copy.induct)
  case (1 src)
  note R = SectionReader_Read_reads_bytes [OF "1.prems"]
  from "1.prems" have off: "0 \<le> sr_off src" by (simp add: reads_bytes_def)
  show ?case
  proof (cases "sr_limit src \<le> sr_off src \<or> int (length bs) \<le> sr_off src")
    case True
    then show ?thesis
      by (subst (1 2) io_Copy.simps) (auto simp: R)
  next
    case False
    define k' where "k' = (if sr_limit src - sr_off src < 32768 then nat (sr_limit src - sr_off src) else 32768)"
    define d where "d = take k' (drop (nat (sr_off src)) bs)"
    define src' where "src' = src\<lparr>sr_off := sr_off src + int (length d)\<rparr>"
    have rd: "SectionReader_Read src 32768 = (d, if length d < k' then Some EOF else None, src')"
      using False by (simp add: R Let_def k'_def d_def src'_def)
    have k'le: "int k' \<le> sr_limit src - sr_off src" "0 < k'" using False by (auto simp: k'_def)
    show ?thesis
    proof (cases "length d < k'")
      case True
      then have short: "length bs - nat (sr_off src) < k'" by (auto simp: d_def)
      then have "take (nat (sr_limit src - sr_off src)) (drop (nat (sr_off src)) bs) = d"
        using k'le by (simp add: d_def)
      with True rd show ?thesis
        by (subst (1 2) io_Copy.simps) simp
    next
      case full: False
      then have len: "length d = k'" by (simp add: d_def)
      have rb: "reads_bytes src' bs"
        unfolding src'_def by (rule reads_bytes_advance [OF "1.prems"]) simp
      have rd': "SectionReader_Read src 32768 = (d, None, src')" using rd full by simp
      from "1.IH" [OF rd' [symmetric] refl refl rb]
      have IH: "fst (io_Copy src') = take (nat (sr_limit src' - sr_off src')) (drop (nat (sr_off src')) bs)"
        "fst (snd (io_Copy src')) = None" by simp_all
      have "d @ take (nat (sr_limit src' - sr_off src')) (drop (nat (sr_off src')) bs)
          = take (nat (sr_limit src - sr_off src)) (drop (nat (sr_off src)) bs)"
      proof -
        have e1: "nat (sr_off src') = nat (sr_off src) + k'"
          using off by (simp add: src'_def len nat_add_distrib)
        have e2: "nat (sr_limit src - sr_off src) = k' + nat (sr_limit src' - sr_off src')"
          using k'le by (simp add: src'_def len)
        show ?thesis
          unfolding e2 take_add d_def e1 by (simp add: add.commute)
      qed
      with IH rd' show ?thesis
        by (subst (1 2) io_Copy.simps) (auto split: prod.splits)
    qed
  qed
qed


lemma io_Copy_reads_bytes':
  assumes "reads_bytes s bs"
  obtains s' where "io_Copy s = (take (nat (sr_limit s - sr_off s)) (drop (nat (sr_off s)) bs), None, s')"
  using io_Copy_reads_bytes [OF assms] by (cases "io_Copy s") auto

lemma SectionReader_Read_Infinite:
  assumes "sr_r s = InfiniteReaderAt v"
  shows "SectionReader_Read s 32768 =
     (if sr_limit s \<le> sr_off s then ([], Some EOF, s)
      else ([v], None, s\<lparr>sr_off := sr_off s + 1\<rparr>))"
proof -
  have "take (Suc 0) (replicate k v) = [v]" if "0 < k" for k
    using that by (cases k) simp_all
  then show ?thesis
    using assms by (auto simp: SectionReader_Read_def Let_def)
qed

lemma io_Copy_Infinite:
  assumes "sr_r s = InfiniteReaderAt v"
  shows "fst (io_Copy s) = replicate (nat (sr_limit s - sr_off s)) v
         \<and> fst (snd (io_Copy s)) = None"
  using assms
proof (induction s rule: io_Copy.induct)
  case (1 src)
  note R = SectionReader_Read_Infinite [OF "1.prems"]
  show ?case
  proof (cases "sr_limit src \<le> sr_off src")
    case True
    then show ?thesis
      by (subst (1 2) io_Copy.simps) (auto simp: R)
  next
    case False
    define src' where "src' = src\<lparr>sr_off := sr_off src + 1\<rparr>"
    have rd: "SectionReader_Read src 32768 = ([v], None, src')"
      using False by (simp add: R src'_def)
    have r': "sr_r src' = InfiniteReaderAt v" using "1.prems" by (simp add: src'_def)
    from "1.IH" [OF rd [symmetric] refl refl r']
    have IH: "fst (io_Copy src') = replicate (nat (sr_limit src' - sr_off src')) v"
      "fst (snd (io_Copy src')) = None" by simp_all
    have "nat (sr_limit src - sr_off src) = Suc (nat (sr_limit src' - sr_off src'))"
      using False by (simp add: src'_def)
    with IH rd show ?thesis
      by (subst (1 2) io_Copy.simps) (auto split: prod.splits)
  qed
qed

text \<open>What \<^verbatim>\<open>io.Copy\<close> writes from a reader, and the error it returns.\<close>

definition copied :: "SectionReader \<Rightarrow> byte list" where
  "copied s = fst (io_Copy s)"

definition copy_err :: "SectionReader \<Rightarrow> error option" where
  "copy_err s = fst (snd (io_Copy s))"

lemma io_Copy_split:
  obtains s' where "io_Copy s = (copied s, copy_err s, s')"
  by (cases "io_Copy s") (simp add: copied_def copy_err_def)

lemma copied_reads_bytes:
  "reads_bytes s bs \<Longrightarrow> copied s = take (nat (sr_limit s - sr_off s)) (drop (nat (sr_off s)) bs)"
  "reads_bytes s bs \<Longrightarrow> copy_err s = None"
  using io_Copy_reads_bytes [of s bs] by (simp_all add: copied_def copy_err_def)

lemma copied_Infinite:
  "sr_r s = InfiniteReaderAt v \<Longrightarrow> copied s = replicate (nat (sr_limit s - sr_off s)) v"
  "sr_r s = InfiniteReaderAt v \<Longrightarrow> copy_err s = None"
  using io_Copy_Infinite [of s v] by (simp_all add: copied_def copy_err_def)

lemma DataIndexSection_WriteTo_loop_eq:
  "DataIndexSection_WriteTo_loop m ids (out, written) =
     (out @ concat (map (\<lambda>k. encode_WemDescriptor (lookup m k)) ids),
      written + 12 * int (length ids))"
  by (induction ids arbitrary: out written) simp_all

lemma DataIndexSection_WriteTo_eq:
  "DataIndexSection_WriteTo idx =
     (encode_SectionHeader (Header_i idx)
        @ concat (map (\<lambda>k. encode_WemDescriptor (lookup (DescriptorMap idx) k)) (WemIds idx)),
      8 + 12 * int (length (WemIds idx)), None)"
  by (simp add: DataIndexSection_WriteTo_def DataIndexSection_WriteTo_loop_eq)

definition wem_out :: "Wem \<Rightarrow> byte list" where
  "wem_out w = copied (Reader w) @ (case RemainingReader w of None \<Rightarrow> [] | Some rr \<Rightarrow> copied rr)"

definition wem_copies :: "Wem \<Rightarrow> bool" where
  "wem_copies w \<longleftrightarrow>
     copy_err (Reader w) = None
     \<and> (case RemainingReader w of None \<Rightarrow> False | Some rr \<Rightarrow> copy_err rr = None)"

lemma DataSection_WriteTo_loop_eq:
  assumes "list_all wem_copies wems"
  shows "\<exists>wems'. DataSection_WriteTo_loop wems
           = Inr ((concat (map wem_out wems), int (length (concat (map wem_out wems))), None), wems')"
  using assms
proof (induction wems)
  case Nil
  then show ?case by simp
next
  case (Cons w wems)
  then obtain rr where rr: "RemainingReader w = Some rr" "copy_err rr = None"
    and e1: "copy_err (Reader w) = None"
    by (auto simp: wem_copies_def split: option.splits)
  from Cons obtain wems' where
    IH: "DataSection_WriteTo_loop wems
           = Inr ((concat (map wem_out wems), int (length (concat (map wem_out wems))), None), wems')"
    by auto
  obtain r1 where c1: "io_Copy (Reader w) = (copied (Reader w), copy_err (Reader w), r1)"
    by (rule io_Copy_split)
  obtain r2 where c2: "io_Copy rr = (copied rr, copy_err rr, r2)"
    by (rule io_Copy_split)
  show ?case
    using rr e1 IH by (simp add: c1 c2 wem_out_def [of w] Let_def)
qed

lemma DataSection_WriteTo_eq:
  assumes "list_all wem_copies (Wems data)"
  shows "\<exists>data'. DataSection_WriteTo data
           = Inr ((encode_SectionHeader (Header_d data) @ concat (map wem_out (Wems data)),
                   8 + int (length (concat (map wem_out (Wems data)))), None), data')"
  using DataSection_WriteTo_loop_eq [OF assms]
  by (auto simp: DataSection_WriteTo_def)

lemma BankHeaderSection_WriteTo_eq:
  assumes "copy_err (RemainingReader_b hdr) = None"
  shows "fst (BankHeaderSection_WriteTo hdr)
           = (encode_SectionHeader (Header_b hdr) @ encode_BankDescriptor (Descriptor_b hdr)
                @ copied (RemainingReader_b hdr),
              16 + int (length (copied (RemainingReader_b hdr))), None)"
proof -
  obtain r1 where c1: "io_Copy (RemainingReader_b hdr)
      = (copied (RemainingReader_b hdr), copy_err (RemainingReader_b hdr), r1)"
    by (rule io_Copy_split)
  show ?thesis
    using assms by (simp add: BankHeaderSection_WriteTo_def c1 Let_def)
qed

lemma UnknownSection_WriteTo_eq:
  assumes "copy_err (Reader_u u) = None"
  shows "fst (UnknownSection_WriteTo u)
           = (encode_SectionHeader (Header_u u) @ copied (Reader_u u),
              8 + int (length (copied (Reader_u u))), None)"
proof -
  obtain r1 where c1: "io_Copy (Reader_u u) = (copied (Reader_u u), copy_err (Reader_u u), r1)"
    by (rule io_Copy_split)
  show ?thesis
    using assms by (simp add: UnknownSection_WriteTo_def c1 Let_def)
qed

definition unknown_out :: "UnknownSection \<Rightarrow> byte list" where
  "unknown_out u = encode_SectionHeader (Header_u u) @ copied (Reader_u u)"

lemma File_WriteTo_others_eq:
  assumes "list_all (\<lambda>u. copy_err (Reader_u u) = None) others"
  shows "fst (File_WriteTo_others others)
           = (concat (map unknown_out others), int (length (concat (map unknown_out others))), None)"
  using assms
proof (induction others)
  case Nil
  then show ?case by simp
next
  case (Cons u others)
  then have u: "fst (UnknownSection_WriteTo u)
      = (unknown_out u, 8 + int (length (copied (Reader_u u))), None)"
    by (simp add: UnknownSection_WriteTo_eq unknown_out_def)
  have l: "length (unknown_out u) = 8 + length (copied (Reader_u u))"
    by (simp add: unknown_out_def encode_SectionHeader_def LittleEndian_PutUint32_def
        split: prod.splits)
  from Cons have IH: "fst (File_WriteTo_others others)
      = (concat (map unknown_out others), int (length (concat (map unknown_out others))), None)"
    by simp
  show ?case
    using u IH l
    by (cases "UnknownSection_WriteTo u"; cases "File_WriteTo_others others") auto
qed

definition scenario :: "byte list" where
  "scenario =
     [0x42, 0x4B, 0x48, 0x44, 8, 0, 0, 0,   1, 0, 0, 0, 2, 0, 0, 0,
      0x44, 0x49, 0x44, 0x58, 12, 0, 0, 0,  1, 0, 0, 0, 0, 0, 0, 0, 4, 0, 0, 0,
      0x44, 0x41, 0x54, 0x41, 8, 0, 0, 0,   0xAA, 0xAA, 0xAA, 0xAA, 0, 0, 0, 0]"

definition scenario_File :: File where
  "scenario_File =
     \<lparr>closer = None,
      BankHeaderSection = Some
        \<lparr>Header_b = \<lparr>Identifier = bkhdHeaderId, Length = 8\<rparr>,
         Descriptor_b = \<lparr>Version = 1, BankId = 2\<rparr>,
         RemainingReader_b =
           \<lparr>sr_r = SectionReaderAt (BytesReaderAt scenario) 0 maxint64,
            sr_base = 16, sr_off = 16, sr_limit = 16\<rparr>\<rparr>,
      IndexSection = Some
        \<lparr>Header_i = \<lparr>Identifier = didxHeaderId, Length = 12\<rparr>, WemCount = 1, WemIds = [1],
         DescriptorMap = [1 \<mapsto> \<lparr>WemId = 1, Offset = 0, Length_w = 4\<rparr>]\<rparr>,
      DataSection = Some
        \<lparr>Header_d = \<lparr>Identifier = dataHeaderId, Length = 8\<rparr>, DataStart = 44,
         Wems =
           [\<lparr>Reader = \<lparr>sr_r = SectionReaderAt (BytesReaderAt scenario) 0 maxint64,
                       sr_base = 44, sr_off = 44, sr_limit = 48\<rparr>,
             Descriptor = \<lparr>WemId = 1, Offset = 0, Length_w = 4\<rparr>,
             RemainingReader = Some
               \<lparr>sr_r = SectionReaderAt (BytesReaderAt scenario) 0 maxint64,
                sr_base = 48, sr_off = 48, sr_limit = 52\<rparr>,
             RemainingLength = 4\<rparr>]\<rparr>,
      Others = []\<rparr>"

lemma length_scenario: "length scenario = 52"
  by (simp add: scenario_def)

lemma NewFile_scenario: "NewFile scenario = Inr scenario_File"
  unfolding scenario_File_def scenario_def
  by (simp add: parse_eval)


definition scenario_replaced :: File where
  "scenario_replaced =
     scenario_File
       \<lparr>IndexSection := Some
          \<lparr>Header_i = \<lparr>Identifier = didxHeaderId, Length = 12\<rparr>, WemCount = 1, WemIds = [1],
           DescriptorMap = [1 \<mapsto> \<lparr>WemId = 1, Offset = 0, Length_w = 2\<rparr>]\<rparr>,
        DataSection := Some
          \<lparr>Header_d = \<lparr>Identifier = dataHeaderId, Length = 8\<rparr>, DataStart = 44,
           Wems =
             [\<lparr>Reader = \<lparr>sr_r = BytesReaderAt [0xBB, 0xBB], sr_base = 0, sr_off = 0,
                         sr_limit = 2\<rparr>,
               Descriptor = \<lparr>WemId = 1, Offset = 0, Length_w = 2\<rparr>,
               RemainingReader = Some
                 \<lparr>sr_r = InfiniteReaderAt 0, sr_base = 0, sr_off = 0, sr_limit = 6\<rparr>,
               RemainingLength = 4\<rparr>]\<rparr>\<rparr>"

lemma ReplaceWem_scenario:
  "ReplaceWem scenario_File 0 (BytesReaderAt [0xBB, 0xBB]) 2 = (scenario_replaced, None)"
  by (simp add: ReplaceWem_def scenario_File_def scenario_replaced_def Let_def
      NewSectionReader_def int64_def maxint64_def)

lemma ReplaceWems_scenario:
  "ReplaceWems scenario_File [\<lparr>Wem_r = BytesReaderAt [0xBB, 0xBB], WemIndex = 0, Length_r = 2\<rparr>]
     = (scenario_replaced, None)"
  by (simp add: ReplaceWems_step_def scenario_File_def scenario_replaced_def Let_def
      NewSectionReader_def int64_def maxint64_def)

lemma scenario_replaced_written:
  "\<exists>data'. DataSection_WriteTo
       \<lparr>Header_d = \<lparr>Identifier = dataHeaderId, Length = 8\<rparr>, DataStart = 44,
        Wems =
          [\<lparr>Reader = \<lparr>sr_r = BytesReaderAt [0xBB, 0xBB], sr_base = 0, sr_off = 0,
                      sr_limit = 2\<rparr>,
            Descriptor = \<lparr>WemId = 1, Offset = 0, Length_w = 2\<rparr>,
            RemainingReader = Some
              \<lparr>sr_r = InfiniteReaderAt 0, sr_base = 0, sr_off = 0, sr_limit = 6\<rparr>,
            RemainingLength = 4\<rparr>]\<rparr>
     = Inr (([0x44, 0x41, 0x54, 0x41, 8, 0, 0, 0, 0xBB, 0xBB, 0, 0, 0, 0, 0, 0], 16, None), data')"
proof -
  let ?r = "\<lparr>sr_r = BytesReaderAt [0xBB, 0xBB], sr_base = 0, sr_off = 0, sr_limit = 2\<rparr>"
  let ?p = "\<lparr>sr_r = InfiniteReaderAt 0, sr_base = 0, sr_off = 0, sr_limit = 6\<rparr>"
  have rb: "reads_bytes ?r [0xBB, 0xBB]" by (simp add: reads_bytes_def)
  have c: "copied ?r = [0xBB, 0xBB]" "copy_err ?r = None"
    using copied_reads_bytes [OF rb] by simp_all
  have p: "copied ?p = [0, 0, 0, 0, 0, 0]" "copy_err ?p = None"
    using copied_Infinite [of ?p 0] by (simp_all add: numeral_eq_Suc)
  show ?thesis
    by (rule exE [OF DataSection_WriteTo_eq [of "\<lparr>Header_d = \<lparr>Identifier = dataHeaderId, Length = 8\<rparr>,
          DataStart = 44, Wems = [\<lparr>Reader = ?r, Descriptor = \<lparr>WemId = 1, Offset = 0, Length_w = 2\<rparr>,
            RemainingReader = Some ?p, RemainingLength = 4\<rparr>]\<rparr>"]])
      (auto simp: wem_copies_def wem_out_def c p encode_SectionHeader_def dataHeaderId_def
        LittleEndian_PutUint32_def)
qed


text \<open>
  Claim C5 (concrete scenario). \<open>scenario\<close> is a bank with a BKHD section, a DIDX section
  holding the single record \<open>(1, 0, 4)\<close> and a DATA section of length 8 holding
  \<open>AA AA AA AA 00 00 00 00\<close>; \<open>scenario_File\<close> is what \<^verbatim>\<open>NewFile\<close> builds from it. Replacing
  wem 0 by the two bytes \<open>BB BB\<close> (with \<^verbatim>\<open>ReplaceWem\<close> or with \<^verbatim>\<open>ReplaceWems\<close>) gives the
  descriptor \<open>(1, 0, 2)\<close>, in the wem and in the index, and \<^verbatim>\<open>DataSection.WriteTo\<close> then
  writes the 8-byte header followed by exactly the 8 bytes \<open>BB BB 00 00 00 00 00 00\<close>.
\<close>

theorem concrete_scenario:
  "NewFile scenario = Inr scenario_File
   \<and> ReplaceWem scenario_File 0 (BytesReaderAt [0xBB, 0xBB]) 2 = (scenario_replaced, None)
   \<and> ReplaceWems scenario_File
         [\<lparr>Wem_r = BytesReaderAt [0xBB, 0xBB], WemIndex = 0, Length_r = 2\<rparr>]
       = (scenario_replaced, None)
   \<and> (\<exists>idx data data'.
         IndexSection scenario_replaced = Some idx
         \<and> DescriptorMap idx 1 = Some \<lparr>WemId = 1, Offset = 0, Length_w = 2\<rparr>
         \<and> DataSection scenario_replaced = Some data
         \<and> map Descriptor (Wems data) = [\<lparr>WemId = 1, Offset = 0, Length_w = 2\<rparr>]
         \<and> DataSection_WriteTo data
             = Inr ((encode_SectionHeader \<lparr>Identifier = dataHeaderId, Length = 8\<rparr>
                       @ [0xBB, 0xBB, 0, 0, 0, 0, 0, 0],
                     16, None), data'))"
proof -
  from scenario_replaced_written obtain data' where
    "DataSection_WriteTo
       \<lparr>Header_d = \<lparr>Identifier = dataHeaderId, Length = 8\<rparr>, DataStart = 44,
        Wems =
          [\<lparr>Reader = \<lparr>sr_r = BytesReaderAt [0xBB, 0xBB], sr_base = 0, sr_off = 0,
                      sr_limit = 2\<rparr>,
            Descriptor = \<lparr>WemId = 1, Offset = 0, Length_w = 2\<rparr>,
            RemainingReader = Some
              \<lparr>sr_r = InfiniteReaderAt 0, sr_base = 0, sr_off = 0, sr_limit = 6\<rparr>,
            RemainingLength = 4\<rparr>]\<rparr>
     = Inr (([0x44, 0x41, 0x54, 0x41, 8, 0, 0, 0, 0xBB, 0xBB, 0, 0, 0, 0, 0, 0], 16, None), data')"
    by blast
  then have "\<exists>idx data data'.
         IndexSection scenario_replaced = Some idx
         \<and> DescriptorMap idx 1 = Some \<lparr>WemId = 1, Offset = 0, Length_w = 2\<rparr>
         \<and> DataSection scenario_replaced = Some data
         \<and> map Descriptor (Wems data) = [\<lparr>WemId = 1, Offset = 0, Length_w = 2\<rparr>]
         \<and> DataSection_WriteTo data
             = Inr ((encode_SectionHeader \<lparr>Identifier = dataHeaderId, Length = 8\<rparr>
                       @ [0xBB, 0xBB, 0, 0, 0, 0, 0, 0],
                     16, None), data')"
    by (simp add: scenario_replaced_def scenario_File_def encode_SectionHeader_def
        dataHeaderId_def LittleEndian_PutUint32_def)
  with NewFile_scenario ReplaceWem_scenario ReplaceWems_scenario show ?thesis
    by blast
qed

text \<open>The wems and the index of a \<^verbatim>\<open>File\<close>, empty when the section is nil.\<close>

definition wems_of :: "File \<Rightarrow> Wem list" where
  "wems_of bnk = (case DataSection bnk of None \<Rightarrow> [] | Some data \<Rightarrow> Wems data)"

definition descs_of :: "File \<Rightarrow> uint32 \<rightharpoonup> WemDescriptor" where
  "descs_of bnk = (case IndexSection bnk of None \<Rightarrow> Map.empty | Some idx \<Rightarrow> DescriptorMap idx)"

lemma ReplaceWem_frame:
  assumes "ReplaceWem bnk i r len = (bnk', p)"
  shows "length (wems_of bnk') = length (wems_of bnk)"
    and "j < length (wems_of bnk) \<Longrightarrow>
           WemId (Descriptor (wems_of bnk' ! j)) = WemId (Descriptor (wems_of bnk ! j))
           \<and> Offset (Descriptor (wems_of bnk' ! j)) = Offset (Descriptor (wems_of bnk ! j))
           \<and> (int j \<noteq> i \<longrightarrow> wems_of bnk' ! j = wems_of bnk ! j)"
    and "k \<noteq> WemId (Descriptor (wems_of bnk ! nat i)) \<Longrightarrow> descs_of bnk' k = descs_of bnk k"
    and "closer bnk' = closer bnk \<and> BankHeaderSection bnk' = BankHeaderSection bnk
         \<and> Others bnk' = Others bnk"
proof -
  show "length (wems_of bnk') = length (wems_of bnk)"
    using assms
    by (auto simp: ReplaceWem_def wems_of_def Let_def split: option.splits if_splits)
  show "closer bnk' = closer bnk \<and> BankHeaderSection bnk' = BankHeaderSection bnk
         \<and> Others bnk' = Others bnk"
    using assms
    by (auto simp: ReplaceWem_def Let_def split: option.splits if_splits)
  show "descs_of bnk' k = descs_of bnk k" if "k \<noteq> WemId (Descriptor (wems_of bnk ! nat i))"
    using assms that
    by (auto simp: ReplaceWem_def wems_of_def descs_of_def Let_def split: option.splits if_splits)
  show "WemId (Descriptor (wems_of bnk' ! j)) = WemId (Descriptor (wems_of bnk ! j))
           \<and> Offset (Descriptor (wems_of bnk' ! j)) = Offset (Descriptor (wems_of bnk ! j))
           \<and> (int j \<noteq> i \<longrightarrow> wems_of bnk' ! j = wems_of bnk ! j)"
    if "j < length (wems_of bnk)"
  proof (cases "j = nat i")
    case True
    with assms that show ?thesis
      by (auto simp: ReplaceWem_def wems_of_def Let_def split: option.splits if_splits)
  next
    case False
    with assms that show ?thesis
      by (auto simp: ReplaceWem_def wems_of_def Let_def split: option.splits if_splits)
  qed
qed

lemma ReplaceWems_step_ReplaceWem:
  "fst (ReplaceWems_step bnk r) = fst (ReplaceWem bnk (WemIndex r) (Wem_r r) (Length_r r))"
  "snd (ReplaceWems_step bnk r) = None
     \<longleftrightarrow> snd (ReplaceWem bnk (WemIndex r) (Wem_r r) (Length_r r)) = None"
  by (auto simp: ReplaceWems_step_def ReplaceWem_def Let_def split: option.splits)

lemma ReplaceWems_frame:
  assumes "ReplaceWems bnk rs = (bnk', p)"
  shows "length (wems_of bnk') = length (wems_of bnk)
    \<and> (\<forall>j < length (wems_of bnk).
           WemId (Descriptor (wems_of bnk' ! j)) = WemId (Descriptor (wems_of bnk ! j))
           \<and> Offset (Descriptor (wems_of bnk' ! j)) = Offset (Descriptor (wems_of bnk ! j))
           \<and> (int j \<notin> WemIndex ` set rs \<longrightarrow> wems_of bnk' ! j = wems_of bnk ! j))"
  using assms
proof (induction rs arbitrary: bnk)
  case Nil
  then show ?case by simp
next
  case (Cons r rs)
  obtain b1 p1 where st: "ReplaceWem bnk (WemIndex r) (Wem_r r) (Length_r r) = (b1, p1)"
    by (cases "ReplaceWem bnk (WemIndex r) (Wem_r r) (Length_r r)") auto
  obtain q1 where st': "ReplaceWems_step bnk r = (b1, q1)" and q1: "q1 = None \<longleftrightarrow> p1 = None"
    using ReplaceWems_step_ReplaceWem [of bnk r] st
    by (cases "ReplaceWems_step bnk r") auto
  note F = ReplaceWem_frame [OF st]
  show ?case
  proof (cases q1)
    case None
    with Cons.prems st' have "ReplaceWems b1 rs = (bnk', p)" by simp
    from Cons.IH [OF this] F(1) F(2) show ?thesis
      by (auto simp del: ReplaceWems.simps)
  next
    case (Some a)
    with Cons.prems st' have "bnk' = b1" by simp
    with F(1) F(2) show ?thesis by auto
  qed
qed

lemma ReplaceWems_append:
  "ReplaceWems bnk (rs @ rs') =
     (case ReplaceWems bnk rs of (b, None) \<Rightarrow> ReplaceWems b rs' | (b, Some p) \<Rightarrow> (b, Some p))"
  by (induction rs arbitrary: bnk) (auto split: prod.splits option.splits)

text \<open>
  Claim C4 (offset invariance under shrink). After \<^verbatim>\<open>ReplaceWem\<close> on index \<open>i\<close>, and after
  \<^verbatim>\<open>ReplaceWems\<close> on a batch \<open>rs\<close>, whatever the outcome: the \<^verbatim>\<open>File\<close> has as many wems as
  before, every wem keeps its \<open>WemId\<close> and its \<open>Offset\<close>, and every wem at an index that is
  not a target is the same wem as before. In the index, only the entry of the replaced
  wem's id can change. When the precondition holds (the index is in range and the new
  length is at most the old one), \<^verbatim>\<open>ReplaceWem\<close> does not panic and sets the length.
\<close>

theorem offset_invariance:
  assumes "ReplaceWem bnk i r len = (bnk1, p1)" and "ReplaceWems bnk rs = (bnk2, p2)"
    and "j < length (wems_of bnk)"
  shows "length (wems_of bnk1) = length (wems_of bnk)
     \<and> WemId (Descriptor (wems_of bnk1 ! j)) = WemId (Descriptor (wems_of bnk ! j))
     \<and> Offset (Descriptor (wems_of bnk1 ! j)) = Offset (Descriptor (wems_of bnk ! j))
     \<and> (int j \<noteq> i \<longrightarrow> wems_of bnk1 ! j = wems_of bnk ! j)
     \<and> (k \<noteq> WemId (Descriptor (wems_of bnk ! nat i)) \<longrightarrow> descs_of bnk1 k = descs_of bnk k)
     \<and> (int j = i \<and> IndexSection bnk \<noteq> None
          \<and> len \<le> uint (Length_w (Descriptor (wems_of bnk ! j)))
        \<longrightarrow> p1 = None
            \<and> Length_w (Descriptor (wems_of bnk1 ! j)) = word_of_int len
            \<and> descs_of bnk1 (WemId (Descriptor (wems_of bnk ! j)))
                = Some (Descriptor (wems_of bnk1 ! j)))
     \<and> length (wems_of bnk2) = length (wems_of bnk)
     \<and> WemId (Descriptor (wems_of bnk2 ! j)) = WemId (Descriptor (wems_of bnk ! j))
     \<and> Offset (Descriptor (wems_of bnk2 ! j)) = Offset (Descriptor (wems_of bnk ! j))
     \<and> (int j \<notin> WemIndex ` set rs \<longrightarrow> wems_of bnk2 ! j = wems_of bnk ! j)"
proof -
  note F = ReplaceWem_frame [OF assms(1)]
  have ok: "p1 = None
            \<and> Length_w (Descriptor (wems_of bnk1 ! j)) = word_of_int len
            \<and> descs_of bnk1 (WemId (Descriptor (wems_of bnk ! j)))
                = Some (Descriptor (wems_of bnk1 ! j))"
    if "int j = i" "IndexSection bnk \<noteq> None"
      "len \<le> uint (Length_w (Descriptor (wems_of bnk ! j)))"
    using assms(1,3) that
    by (auto simp: ReplaceWem_def wems_of_def descs_of_def Let_def
        split: option.splits if_splits)
  from F(1) F(2) [OF assms(3)] F(3) [of k] ok ReplaceWems_frame [OF assms(2)] assms(3)
  show ?thesis by blast
qed

text \<open>
  A bank with two wems: a BKHD section, a DIDX section with the records \<open>(1, 0, 4)\<close> and
  \<open>(2, 4, 4)\<close>, and a DATA section of length 8. \<open>two_wems_File\<close> is what \<^verbatim>\<open>NewFile\<close> builds
  from it, \<open>two_wems_replaced\<close> is that \<^verbatim>\<open>File\<close> after wem 0 is replaced by two bytes.
\<close>

definition two_wems :: "byte list" where
  "two_wems =
     [0x42, 0x4B, 0x48, 0x44, 8, 0, 0, 0,   1, 0, 0, 0, 2, 0, 0, 0,
      0x44, 0x49, 0x44, 0x58, 24, 0, 0, 0,
        1, 0, 0, 0, 0, 0, 0, 0, 4, 0, 0, 0,   2, 0, 0, 0, 4, 0, 0, 0, 4, 0, 0, 0,
      0x44, 0x41, 0x54, 0x41, 8, 0, 0, 0,   0xAA, 0xAA, 0xAA, 0xAA, 0xCC, 0xCC, 0xCC, 0xCC]"

definition two_wems_File :: File where
  "two_wems_File =
     \<lparr>closer = None,
      BankHeaderSection = Some
        \<lparr>Header_b = \<lparr>Identifier = bkhdHeaderId, Length = 8\<rparr>,
         Descriptor_b = \<lparr>Version = 1, BankId = 2\<rparr>,
         RemainingReader_b =
           \<lparr>sr_r = SectionReaderAt (BytesReaderAt two_wems) 0 maxint64,
            sr_base = 16, sr_off = 16, sr_limit = 16\<rparr>\<rparr>,
      IndexSection = Some
        \<lparr>Header_i = \<lparr>Identifier = didxHeaderId, Length = 24\<rparr>, WemCount = 2,
         WemIds = [1, 2],
         DescriptorMap = [1 \<mapsto> \<lparr>WemId = 1, Offset = 0, Length_w = 4\<rparr>,
                          2 \<mapsto> \<lparr>WemId = 2, Offset = 4, Length_w = 4\<rparr>]\<rparr>,
      DataSection = Some
        \<lparr>Header_d = \<lparr>Identifier = dataHeaderId, Length = 8\<rparr>, DataStart = 56,
         Wems =
           [\<lparr>Reader = \<lparr>sr_r = SectionReaderAt (BytesReaderAt two_wems) 0 maxint64,
                       sr_base = 56, sr_off = 56, sr_limit = 60\<rparr>,
             Descriptor = \<lparr>WemId = 1, Offset = 0, Length_w = 4\<rparr>,
             RemainingReader = Some
               \<lparr>sr_r = SectionReaderAt (BytesReaderAt two_wems) 0 maxint64,
                sr_base = 60, sr_off = 60, sr_limit = 60\<rparr>,
             RemainingLength = 0\<rparr>,
            \<lparr>Reader = \<lparr>sr_r = SectionReaderAt (BytesReaderAt two_wems) 0 maxint64,
                       sr_base = 60, sr_off = 60, sr_limit = 64\<rparr>,
             Descriptor = \<lparr>WemId = 2, Offset = 4, Length_w = 4\<rparr>,
             RemainingReader = Some
               \<lparr>sr_r = SectionReaderAt (BytesReaderAt two_wems) 0 maxint64,
                sr_base = 64, sr_off = 64, sr_limit = 64\<rparr>,
             RemainingLength = 0\<rparr>]\<rparr>,
      Others = []\<rparr>"

definition two_wems_replaced :: File where
  "two_wems_replaced =
     two_wems_File
       \<lparr>IndexSection := Some
          \<lparr>Header_i = \<lparr>Identifier = didxHeaderId, Length = 24\<rparr>, WemCount = 2,
           WemIds = [1, 2],
           DescriptorMap = [1 \<mapsto> \<lparr>WemId = 1, Offset = 0, Length_w = 4\<rparr>,
                            2 \<mapsto> \<lparr>WemId = 2, Offset = 4, Length_w = 4\<rparr>,
                            1 \<mapsto> \<lparr>WemId = 1, Offset = 0, Length_w = 2\<rparr>]\<rparr>,
        DataSection := Some
          \<lparr>Header_d = \<lparr>Identifier = dataHeaderId, Length = 8\<rparr>, DataStart = 56,
           Wems =
             [\<lparr>Reader = \<lparr>sr_r = BytesReaderAt [0xBB, 0xBB], sr_base = 0, sr_off = 0,
                         sr_limit = 2\<rparr>,
               Descriptor = \<lparr>WemId = 1, Offset = 0, Length_w = 2\<rparr>,
               RemainingReader = Some
                 \<lparr>sr_r = InfiniteReaderAt 0, sr_base = 0, sr_off = 0, sr_limit = 2\<rparr>,
               RemainingLength = 0\<rparr>,
              \<lparr>Reader = \<lparr>sr_r = SectionReaderAt (BytesReaderAt two_wems) 0 maxint64,
                         sr_base = 60, sr_off = 60, sr_limit = 64\<rparr>,
               Descriptor = \<lparr>WemId = 2, Offset = 4, Length_w = 4\<rparr>,
               RemainingReader = Some
                 \<lparr>sr_r = SectionReaderAt (BytesReaderAt two_wems) 0 maxint64,
                  sr_base = 64, sr_off = 64, sr_limit = 64\<rparr>,
               RemainingLength = 0\<rparr>]\<rparr>\<rparr>"

lemma NewDataIndexSection_loop_numeral:
  "NewDataIndexSection_loop (numeral v) r sec
     = NewDataIndexSection_loop (Suc (pred_numeral v)) r sec"
  by (simp add: numeral_eq_Suc)

lemma NewFile_two_wems: "NewFile two_wems = Inr two_wems_File"
  unfolding two_wems_File_def two_wems_def
  by (simp add: parse_eval NewDataIndexSection_loop_numeral)

lemma ReplaceWem_two_wems:
  "ReplaceWem two_wems_File 0 (BytesReaderAt [0xBB, 0xBB]) 2 = (two_wems_replaced, None)"
  by (simp add: ReplaceWem_def two_wems_File_def two_wems_replaced_def Let_def
      NewSectionReader_def int64_def maxint64_def)

lemma ReplaceWems_two_wems:
  "ReplaceWems two_wems_File [\<lparr>Wem_r = BytesReaderAt [0xBB, 0xBB], WemIndex = 0, Length_r = 2\<rparr>]
     = (two_wems_replaced, None)"
  by (simp add: ReplaceWems_step_def two_wems_File_def two_wems_replaced_def Let_def
      NewSectionReader_def int64_def maxint64_def)

lemma wems_of_two_wems:
  "wems_of two_wems_File = Wems (the (DataSection two_wems_File))"
  "wems_of two_wems_replaced = Wems (the (DataSection two_wems_replaced))"
  by (simp_all add: wems_of_def two_wems_File_def two_wems_replaced_def)

theorem offset_invariance_witness:
  "ReplaceWem two_wems_File 0 (BytesReaderAt [0xBB, 0xBB]) 2 = (two_wems_replaced, None)
   \<and> ReplaceWems two_wems_File
         [\<lparr>Wem_r = BytesReaderAt [0xBB, 0xBB], WemIndex = 0, Length_r = 2\<rparr>]
       = (two_wems_replaced, None)
   \<and> 1 < length (wems_of two_wems_File)
   \<and> length (wems_of two_wems_replaced) = length (wems_of two_wems_File)
   \<and> Offset (Descriptor (wems_of two_wems_replaced ! 0))
       = Offset (Descriptor (wems_of two_wems_File ! 0))
   \<and> Offset (Descriptor (wems_of two_wems_replaced ! 1))
       = Offset (Descriptor (wems_of two_wems_File ! 1))
   \<and> wems_of two_wems_replaced ! 1 = wems_of two_wems_File ! 1
   \<and> descs_of two_wems_replaced 2 = descs_of two_wems_File 2
   \<and> Length_w (Descriptor (wems_of two_wems_replaced ! 0)) = 2
   \<and> Length_w (Descriptor (wems_of two_wems_File ! 0)) = 4"
  using offset_invariance [OF ReplaceWem_two_wems ReplaceWems_two_wems, of 1 2]
    offset_invariance [OF ReplaceWem_two_wems ReplaceWems_two_wems, of 0 2]
    ReplaceWem_two_wems ReplaceWems_two_wems
  by (simp add: wems_of_def descs_of_def two_wems_File_def two_wems_replaced_def)

text \<open>
  Claim C3 (growth rejection), as amended. When the new length exceeds the current
  descriptor length of the targeted wem, \<^verbatim>\<open>ReplaceWem\<close> panics and leaves the \<^verbatim>\<open>File\<close> as
  it was. \<^verbatim>\<open>ReplaceWems\<close> panics at the first such entry of the batch and leaves the
  \<^verbatim>\<open>File\<close> as the entries before it made it (\<open>bnk\<close> is the \<^verbatim>\<open>File\<close> after the entries
  \<open>rs\<close>, which precede the offending one); with no entry before it, the \<^verbatim>\<open>File\<close> is as it
  was.
\<close>

theorem growth_rejected:
  assumes "DataSection bnk = Some data" and "0 \<le> i" and "i < int (length (Wems data))"
    and "uint (Length_w (Descriptor (Wems data ! nat i))) < len"
  shows "ReplaceWem bnk i r len = (bnk, Some LargerWemUnsupported)
     \<and> ReplaceWems bnk (\<lparr>Wem_r = r, WemIndex = i, Length_r = len\<rparr> # rest)
         = (bnk, Some (LargerWemUnsupportedAt i len
                         (uint (Length_w (Descriptor (Wems data ! nat i))))))
     \<and> (ReplaceWems bnk0 rs = (bnk, None) \<longrightarrow>
          ReplaceWems bnk0 (rs @ \<lparr>Wem_r = r, WemIndex = i, Length_r = len\<rparr> # rest)
            = (bnk, Some (LargerWemUnsupportedAt i len
                            (uint (Length_w (Descriptor (Wems data ! nat i)))))))"
proof -
  have single: "ReplaceWem bnk i r len = (bnk, Some LargerWemUnsupported)"
    using assms by (simp add: ReplaceWem_def Let_def)
  have step: "ReplaceWems_step bnk \<lparr>Wem_r = r, WemIndex = i, Length_r = len\<rparr>
      = (bnk, Some (LargerWemUnsupportedAt i len
                      (uint (Length_w (Descriptor (Wems data ! nat i))))))"
    using assms by (simp add: ReplaceWems_step_def Let_def)
  then have batch: "ReplaceWems bnk (\<lparr>Wem_r = r, WemIndex = i, Length_r = len\<rparr> # rest)
         = (bnk, Some (LargerWemUnsupportedAt i len
                         (uint (Length_w (Descriptor (Wems data ! nat i))))))"
    by simp
  from single batch show ?thesis
    by (simp add: ReplaceWems_append del: ReplaceWems.simps)
qed

theorem growth_rejected_witness:
  "DataSection two_wems_replaced = Some (the (DataSection two_wems_replaced))
   \<and> (0::int) \<le> 1 \<and> 1 < int (length (Wems (the (DataSection two_wems_replaced))))
   \<and> uint (Length_w (Descriptor (Wems (the (DataSection two_wems_replaced)) ! nat 1))) < 5
   \<and> ReplaceWem two_wems_replaced 1 (BytesReaderAt []) 5
       = (two_wems_replaced, Some LargerWemUnsupported)
   \<and> ReplaceWems two_wems_File [\<lparr>Wem_r = BytesReaderAt [0xBB, 0xBB], WemIndex = 0, Length_r = 2\<rparr>]
       = (two_wems_replaced, None)
   \<and> ReplaceWems two_wems_File
        ([\<lparr>Wem_r = BytesReaderAt [0xBB, 0xBB], WemIndex = 0, Length_r = 2\<rparr>]
          @ \<lparr>Wem_r = BytesReaderAt [], WemIndex = 1, Length_r = 5\<rparr> # [])
       = (two_wems_replaced, Some (LargerWemUnsupportedAt 1 5 4))"
proof -
  have d: "DataSection two_wems_replaced = Some (the (DataSection two_wems_replaced))"
    by (simp add: two_wems_replaced_def)
  have l: "1 < int (length (Wems (the (DataSection two_wems_replaced))))"
    by (simp add: two_wems_replaced_def)
  have g: "uint (Length_w (Descriptor (Wems (the (DataSection two_wems_replaced)) ! nat 1))) < 5"
    by (simp add: two_wems_replaced_def)
  have v: "uint (Length_w (Descriptor (Wems (the (DataSection two_wems_replaced)) ! Suc 0))) = 4"
    by (simp add: two_wems_replaced_def)
  from growth_rejected [OF d _ l g, of "BytesReaderAt []" "[]" two_wems_File
      "[\<lparr>Wem_r = BytesReaderAt [0xBB, 0xBB], WemIndex = 0, Length_r = 2\<rparr>]"]
    ReplaceWems_two_wems d l g
  show ?thesis
    by (simp add: v del: ReplaceWems.simps)
qed

text \<open>
  The claim as stated fails for the batched form: in the batch below the second entry
  asks for 5 bytes where wem 1 has 4, \<^verbatim>\<open>ReplaceWems\<close> panics there, and the first entry has
  already shortened wem 0 from 4 bytes to 2.
\<close>

theorem growth_rejected_batch_counterexample:
  "NewFile two_wems = Inr two_wems_File
   \<and> map (\<lambda>w. Length_w (Descriptor w)) (wems_of two_wems_File) = [4, 4]
   \<and> snd (ReplaceWems two_wems_File
            [\<lparr>Wem_r = BytesReaderAt [0xBB, 0xBB], WemIndex = 0, Length_r = 2\<rparr>,
             \<lparr>Wem_r = BytesReaderAt [], WemIndex = 1, Length_r = 5\<rparr>])
       = Some (LargerWemUnsupportedAt 1 5 4)
   \<and> map (\<lambda>w. Length_w (Descriptor w))
         (wems_of (fst (ReplaceWems two_wems_File
            [\<lparr>Wem_r = BytesReaderAt [0xBB, 0xBB], WemIndex = 0, Length_r = 2\<rparr>,
             \<lparr>Wem_r = BytesReaderAt [], WemIndex = 1, Length_r = 5\<rparr>]))) = [2, 4]
   \<and> fst (ReplaceWems two_wems_File
            [\<lparr>Wem_r = BytesReaderAt [0xBB, 0xBB], WemIndex = 0, Length_r = 2\<rparr>,
             \<lparr>Wem_r = BytesReaderAt [], WemIndex = 1, Length_r = 5\<rparr>])
       \<noteq> two_wems_File"
proof -
  have s1: "ReplaceWems_step two_wems_File
              \<lparr>Wem_r = BytesReaderAt [0xBB, 0xBB], WemIndex = 0, Length_r = 2\<rparr>
      = (two_wems_replaced, None)"
    by (simp add: ReplaceWems_step_def two_wems_File_def two_wems_replaced_def Let_def
        NewSectionReader_def int64_def maxint64_def)
  have s2: "ReplaceWems_step two_wems_replaced
              \<lparr>Wem_r = BytesReaderAt [], WemIndex = 1, Length_r = 5\<rparr>
      = (two_wems_replaced, Some (LargerWemUnsupportedAt 1 5 4))"
    by (simp add: ReplaceWems_step_def two_wems_File_def two_wems_replaced_def Let_def)
  have r: "ReplaceWems two_wems_File
            [\<lparr>Wem_r = BytesReaderAt [0xBB, 0xBB], WemIndex = 0, Length_r = 2\<rparr>,
             \<lparr>Wem_r = BytesReaderAt [], WemIndex = 1, Length_r = 5\<rparr>]
      = (two_wems_replaced, Some (LargerWemUnsupportedAt 1 5 4))"
    by (simp add: s1 s2)
  have a: "map (\<lambda>w. Length_w (Descriptor w)) (wems_of two_wems_File) = [4, 4]"
    by (simp add: wems_of_def two_wems_File_def)
  have b: "map (\<lambda>w. Length_w (Descriptor w)) (wems_of two_wems_replaced) = [2, 4]"
    by (simp add: wems_of_def two_wems_replaced_def)
  from a b have "two_wems_replaced \<noteq> two_wems_File" by auto
  with r a b NewFile_two_wems show ?thesis by simp
qed

lemma length_LittleEndian_PutUint32 [simp]: "length (LittleEndian_PutUint32 v) = 4"
  by (simp add: LittleEndian_PutUint32_def)

lemma LittleEndian_Uint32_append [simp]:
  "length xs = 4 \<Longrightarrow> LittleEndian_Uint32 (xs @ ys) = LittleEndian_Uint32 xs"
  by (simp add: LittleEndian_Uint32_def nth_append)

lemma length_encode_WemDescriptor [simp]: "length (encode_WemDescriptor d) = 12"
  by (simp add: encode_WemDescriptor_def)

lemma length_encode_SectionHeader [simp]: "length (encode_SectionHeader h) = 8"
  by (simp add: encode_SectionHeader_def split: prod.splits)

lemma length_encode_BankDescriptor [simp]: "length (encode_BankDescriptor d) = 8"
  by (simp add: encode_BankDescriptor_def)

lemma decode_encode_WemDescriptor [simp]:
  "decode_WemDescriptor (encode_WemDescriptor d) = d"
  by (simp add: decode_WemDescriptor_def encode_WemDescriptor_def)

lemma decode_encode_SectionHeader [simp]:
  "decode_SectionHeader (encode_SectionHeader h) = h"
  by (cases "Identifier h")
     (simp add: decode_SectionHeader_def encode_SectionHeader_def)

lemma encode_decode_BankDescriptor:
  "length buf = 8 \<Longrightarrow> encode_BankDescriptor (decode_BankDescriptor buf) = buf"
proof -
  assume "length buf = 8"
  then obtain a b c d e f g h where buf: "buf = [a, b, c, d, e, f, g, h]"
    by (auto simp: length_Suc_conv numeral_eq_Suc)
  have "LittleEndian_Uint32 [a, b, c, d, e, f, g, h] = LittleEndian_Uint32 [a, b, c, d]"
    using LittleEndian_Uint32_append [of "[a, b, c, d]" "[e, f, g, h]"] by simp
  then show ?thesis
    by (simp add: buf encode_BankDescriptor_def decode_BankDescriptor_def)
qed

lemma binary_Read_source_prefix:
  assumes "0 \<le> off" and "drop (nat off) bs = xs @ rest" and "length xs = k" and "0 < k"
    and "int (length bs) \<le> maxint64"
  shows "binary_Read (source_reader bs off) k = (Inr xs, source_reader bs (off + int k))"
proof -
  have "length (drop (nat off) bs) = k + length rest"
    using assms(2,3) by simp
  then have len: "nat off + k + length rest = length bs" "nat off < length bs"
    using assms(4) by auto
  then have m: "min k (nat (maxint64 - off)) = k"
    using assms(1,5) by auto
  have t: "take k (drop (nat off) bs) = xs"
    using assms(2,3) by simp
  have l: "length (take k (drop (nat off) bs)) = k"
    unfolding t by (rule assms(3))
  have lt: "\<not> int (length bs) \<le> off" "\<not> maxint64 \<le> off"
    using len assms(1,5) by auto
  show ?thesis
    using assms(1,3,4)
    by (simp add: binary_Read_source m l t lt Let_def del: length_take)
qed

lemma drop_nat_add:
  "0 \<le> off \<Longrightarrow> drop (nat (off + int k)) bs = drop k (drop (nat off) bs)"
  by (simp add: nat_add_distrib add.commute)

text \<open>The index that the loop of \<^verbatim>\<open>NewDataIndexSection\<close> builds from the records it reads.\<close>

definition index_add :: "DataIndexSection \<Rightarrow> WemDescriptor list \<Rightarrow> DataIndexSection" where
  "index_add sec recs =
     sec\<lparr>WemIds := WemIds sec @ map WemId recs,
         DescriptorMap := fold (\<lambda>d m. m(WemId d \<mapsto> d)) recs (DescriptorMap sec)\<rparr>"

lemma index_add_Nil [simp]: "index_add sec [] = sec"
  by (simp add: index_add_def)

lemma index_add_Cons:
  "index_add sec (d # recs)
     = index_add (sec\<lparr>WemIds := WemIds sec @ [WemId d],
                      DescriptorMap := (DescriptorMap sec)(WemId d \<mapsto> d)\<rparr>) recs"
  by (simp add: index_add_def)

lemma fold_upd_notin:
  "k \<notin> WemId ` set recs \<Longrightarrow> fold (\<lambda>d m. m(WemId d \<mapsto> d)) recs m k = m k"
  by (induction recs arbitrary: m) auto

lemma fold_upd_in:
  "distinct (map WemId recs) \<Longrightarrow> d \<in> set recs
     \<Longrightarrow> fold (\<lambda>d m. m(WemId d \<mapsto> d)) recs m (WemId d) = Some d"
  by (induction recs arbitrary: m) (auto simp: fold_upd_notin)

lemma NewDataIndexSection_loop_reads:
  assumes "0 \<le> off" and "drop (nat off) bs = concat (map encode_WemDescriptor recs) @ rest"
    and "int (length bs) \<le> maxint64" and "distinct (map WemId recs)"
    and "\<forall>d\<in>set recs. DescriptorMap sec (WemId d) = None"
  shows "NewDataIndexSection_loop (length recs) (source_reader bs off) sec
           = Inr (index_add sec recs, source_reader bs (off + 12 * int (length recs)))"
  using assms
proof (induction recs arbitrary: off sec)
  case Nil
  then show ?case by simp
next
  case (Cons d recs)
  have rd: "binary_Read (source_reader bs off) 12
      = (Inr (encode_WemDescriptor d), source_reader bs (off + 12))"
    using binary_Read_source_prefix [of off bs "encode_WemDescriptor d"
        "concat (map encode_WemDescriptor recs) @ rest" 12] Cons.prems
    by simp
  let ?sec = "sec\<lparr>WemIds := WemIds sec @ [WemId d],
                   DescriptorMap := (DescriptorMap sec)(WemId d \<mapsto> d)\<rparr>"
  have dr: "drop (nat (off + 12)) bs = concat (map encode_WemDescriptor recs) @ rest"
    using drop_nat_add [of off 12 bs] Cons.prems(1,2) by simp
  have fresh: "\<forall>e\<in>set recs. DescriptorMap ?sec (WemId e) = None"
  proof
    fix e assume e: "e \<in> set recs"
    with Cons.prems(4) have "WemId e \<noteq> WemId d" by (auto simp: image_iff)
    with e Cons.prems(5) show "DescriptorMap ?sec (WemId e) = None" by simp
  qed
  have "NewDataIndexSection_loop (length recs) (source_reader bs (off + 12)) ?sec
      = Inr (index_add ?sec recs, source_reader bs (off + 12 + 12 * int (length recs)))"
    by (rule Cons.IH [OF _ dr Cons.prems(3) _ fresh]) (use Cons.prems in auto)
  then show ?case
    using Cons.prems(5) by (simp add: rd index_add_Cons Let_def algebra_simps)
qed

lemma NewDataIndexSection_loop_repeated:
  assumes "0 \<le> off"
    and "drop (nat off) bs
           = concat (map encode_WemDescriptor pre) @ encode_WemDescriptor d @ rest"
    and "int (length bs) \<le> maxint64" and "distinct (map WemId pre)"
    and "\<forall>p\<in>set pre. DescriptorMap sec (WemId p) = None"
    and "WemId d \<in> WemId ` set pre \<or> DescriptorMap sec (WemId d) \<noteq> None"
  shows "NewDataIndexSection_loop (length pre + Suc m) (source_reader bs off) sec
           = Inl (Panic (RepeatedWemId (WemId d)))"
  using assms
proof (induction pre arbitrary: off sec)
  case Nil
  have rd: "binary_Read (source_reader bs off) 12
      = (Inr (encode_WemDescriptor d), source_reader bs (off + 12))"
    using binary_Read_source_prefix [of off bs "encode_WemDescriptor d" rest 12] Nil.prems
    by simp
  with Nil.prems(6) show ?case by (simp add: Let_def)
next
  case (Cons p pre)
  have rd: "binary_Read (source_reader bs off) 12
      = (Inr (encode_WemDescriptor p), source_reader bs (off + 12))"
    using binary_Read_source_prefix [of off bs "encode_WemDescriptor p"
        "concat (map encode_WemDescriptor pre) @ encode_WemDescriptor d @ rest" 12] Cons.prems
    by simp
  let ?sec = "sec\<lparr>WemIds := WemIds sec @ [WemId p],
                   DescriptorMap := (DescriptorMap sec)(WemId p \<mapsto> p)\<rparr>"
  have dr: "drop (nat (off + 12)) bs
      = concat (map encode_WemDescriptor pre) @ encode_WemDescriptor d @ rest"
    using drop_nat_add [of off 12 bs] Cons.prems(1,2) by simp
  have fresh: "\<forall>e\<in>set pre. DescriptorMap ?sec (WemId e) = None"
  proof
    fix e assume e: "e \<in> set pre"
    with Cons.prems(4) have "WemId e \<noteq> WemId p" by (auto simp: image_iff)
    with e Cons.prems(5) show "DescriptorMap ?sec (WemId e) = None" by simp
  qed
  have dup: "WemId d \<in> WemId ` set pre \<or> DescriptorMap ?sec (WemId d) \<noteq> None"
    using Cons.prems(6) by auto
  have "NewDataIndexSection_loop (length pre + Suc m) (source_reader bs (off + 12)) ?sec
      = Inl (Panic (RepeatedWemId (WemId d)))"
    by (rule Cons.IH [OF _ dr Cons.prems(3) _ fresh dup]) (use Cons.prems in auto)
  then show ?case
    using Cons.prems(5) by (simp add: rd Let_def)
qed

lemma NewFile_loop_DIDX:
  assumes "0 \<le> off" and "int (length bs) \<le> maxint64"
    and "drop (nat off) bs = encode_SectionHeader hdr @ rest"
    and "Identifier hdr = didxHeaderId"
  shows "NewFile_loop bs off bnk =
     (case NewDataIndexSection hdr (source_reader bs (off + 8)) of
        Inl err \<Rightarrow> Inl err
      | Inr (sec, sr') \<Rightarrow> NewFile_loop bs (sr_off sr') (bnk\<lparr>IndexSection := Some sec\<rparr>))"
proof -
  have "length (drop (nat off) bs) = 8 + length rest"
    using assms(3) by simp
  then have len: "off + 8 \<le> int (length bs)" using assms(1) by auto
  have t: "take 8 (drop (nat off) bs) = encode_SectionHeader hdr"
    using assms(3) by simp
  have ne: "didxHeaderId \<noteq> bkhdHeaderId"
    by (simp add: didxHeaderId_def bkhdHeaderId_def)
  show ?thesis
    by (simp add: NewFile_loop_chunk [OF assms(1) len assms(2)] t Let_def assms(4) ne)
qed

text \<open>
  Claim C6 (duplicate id rejection). An index chunk starts at \<open>off\<close>: its header \<open>hdr\<close>,
  tagged DIDX, then the records \<open>pre\<close> with distinct ids, then a record \<open>d\<close> whose id is
  the id of one of \<open>pre\<close> (the first record that repeats an id), the chunk declaring at
  least these records. Then \<^verbatim>\<open>NewDataIndexSection\<close> panics with the message carrying that
  id, and so does the whole parse, whatever was parsed before: no \<^verbatim>\<open>File\<close> is returned.
\<close>

theorem duplicate_id_rejected:
  assumes "Identifier hdr = didxHeaderId"
    and "unat (Length hdr div 12) = length pre + Suc m"
    and "0 \<le> off" and "int (length bs) \<le> maxint64"
    and "drop (nat off) bs
           = encode_SectionHeader hdr @ concat (map encode_WemDescriptor pre)
               @ encode_WemDescriptor d @ rest"
    and "distinct (map WemId pre)" and "WemId d \<in> WemId ` set pre"
  shows "NewDataIndexSection hdr (source_reader bs (off + 8))
           = Inl (Panic (RepeatedWemId (WemId d)))
     \<and> NewFile_loop bs off bnk = Inl (Panic (RepeatedWemId (WemId d)))
     \<and> (off = 0 \<longrightarrow> NewFile bs = Inl (Panic (RepeatedWemId (WemId d)))
                    \<and> NewFile2 bs = Inl (Panic (RepeatedWemId (WemId d))))"
proof -
  have dr: "drop (nat (off + 8)) bs
      = concat (map encode_WemDescriptor pre) @ encode_WemDescriptor d @ rest"
    using drop_nat_add [of off 8 bs] assms(3,5) by simp
  have "NewDataIndexSection_loop (length pre + Suc m) (source_reader bs (off + 8))
          \<lparr>Header_i = hdr, WemCount = Length hdr div 12, WemIds = [],
           DescriptorMap = Map.empty\<rparr>
      = Inl (Panic (RepeatedWemId (WemId d)))"
    by (rule NewDataIndexSection_loop_repeated [OF _ dr assms(4,6) _ disjI1 [OF assms(7)]])
       (use assms(3) in simp_all)
  then have sec: "NewDataIndexSection hdr (source_reader bs (off + 8))
      = Inl (Panic (RepeatedWemId (WemId d)))"
    unfolding NewDataIndexSection_def Let_def assms(2) using assms(1) by simp
  have loop: "NewFile_loop bs off b = Inl (Panic (RepeatedWemId (WemId d)))" for b
    by (simp add: NewFile_loop_DIDX [OF assms(3,4,5,1)] sec)
  show ?thesis
    using sec loop
    by (auto simp: NewFile_def NewFile2_def NewSectionReader_def Let_def)
qed

definition duplicate_ids :: "byte list" where
  "duplicate_ids =
     [0x44, 0x49, 0x44, 0x58, 24, 0, 0, 0,
        5, 0, 0, 0, 0, 0, 0, 0, 4, 0, 0, 0,   5, 0, 0, 0, 4, 0, 0, 0, 4, 0, 0, 0]"

theorem duplicate_id_rejected_witness:
  "Identifier \<lparr>Identifier = didxHeaderId, Length = 24\<rparr> = didxHeaderId
   \<and> unat (Length \<lparr>Identifier = didxHeaderId, Length = 24\<rparr> div 12)
       = length [\<lparr>WemId = 5, Offset = 0, Length_w = 4\<rparr>] + Suc 0
   \<and> drop (nat 0) duplicate_ids
       = encode_SectionHeader \<lparr>Identifier = didxHeaderId, Length = 24\<rparr>
           @ concat (map encode_WemDescriptor [\<lparr>WemId = 5, Offset = 0, Length_w = 4\<rparr>])
           @ encode_WemDescriptor \<lparr>WemId = 5, Offset = 4, Length_w = 4\<rparr> @ []
   \<and> distinct (map WemId [\<lparr>WemId = 5, Offset = 0, Length_w = 4\<rparr>])
   \<and> WemId \<lparr>WemId = 5, Offset = 4, Length_w = 4\<rparr>
       \<in> WemId ` set [\<lparr>WemId = 5, Offset = 0, Length_w = 4\<rparr>]
   \<and> NewFile duplicate_ids = Inl (Panic (RepeatedWemId 5))
   \<and> NewFile2 duplicate_ids = Inl (Panic (RepeatedWemId 5))"
proof -
  have h2: "unat (Length \<lparr>Identifier = didxHeaderId, Length = 24\<rparr> div 12)
       = length [\<lparr>WemId = 5, Offset = 0, Length_w = 4\<rparr>] + Suc 0"
    by simp
  have h5: "drop (nat 0) duplicate_ids
       = encode_SectionHeader \<lparr>Identifier = didxHeaderId, Length = 24\<rparr>
           @ concat (map encode_WemDescriptor [\<lparr>WemId = 5, Offset = 0, Length_w = 4\<rparr>])
           @ encode_WemDescriptor \<lparr>WemId = 5, Offset = 4, Length_w = 4\<rparr> @ []"
    by (simp add: duplicate_ids_def encode_SectionHeader_def encode_WemDescriptor_def
        LittleEndian_PutUint32_def didxHeaderId_def)
  have h4: "int (length duplicate_ids) \<le> maxint64"
    by (simp add: duplicate_ids_def maxint64_def)
  from duplicate_id_rejected [OF _ h2 _ h4 h5, of new_File] h2 h5
  show ?thesis by simp
qed

lemma NewFile_loop_DATA_nil:
  assumes "0 \<le> off" and "int (length bs) \<le> maxint64"
    and "drop (nat off) bs = encode_SectionHeader hdr @ rest"
    and "Identifier hdr = dataHeaderId" and "IndexSection bnk = None"
  shows "NewFile_loop bs off bnk = Inl (Panic NilPointerDereference)"
proof -
  have "length (drop (nat off) bs) = 8 + length rest"
    using assms(3) by simp
  then have len: "off + 8 \<le> int (length bs)" using assms(1) by auto
  have t: "take 8 (drop (nat off) bs) = encode_SectionHeader hdr"
    using assms(3) by simp
  have ne: "dataHeaderId \<noteq> bkhdHeaderId" "dataHeaderId \<noteq> didxHeaderId"
    by (simp_all add: didxHeaderId_def bkhdHeaderId_def dataHeaderId_def)
  show ?thesis
    by (simp add: NewFile_loop_chunk [OF assms(1) len assms(2)] t Let_def assms(4,5) ne
        NewDataSection_def)
qed

definition data_before_index :: "byte list" where
  "data_before_index =
     [0x44, 0x41, 0x54, 0x41, 0, 0, 0, 0,
      0x44, 0x49, 0x44, 0x58, 0, 0, 0, 0]"

text \<open>
  Claim C8 (data before index). On a source whose DATA section comes before any DIDX
  section, \<^verbatim>\<open>NewFile\<close> calls \<^verbatim>\<open>NewDataSection\<close> with a nil index, and the loop over
  \<^verbatim>\<open>idx.WemIds\<close> dereferences it: the parse ends in a run-time panic, not in a returned
  error. The theorem runs \<^verbatim>\<open>NewFile\<close> (both definitions) on such a source.
\<close>

theorem data_before_index_panics:
  "NewFile data_before_index = Inl (Panic NilPointerDereference)
   \<and> NewFile2 data_before_index = Inl (Panic NilPointerDereference)"
proof -
  have "NewFile_loop data_before_index 0 new_File = Inl (Panic NilPointerDereference)"
    by (rule NewFile_loop_DATA_nil [where hdr = "\<lparr>Identifier = dataHeaderId, Length = 0\<rparr>"
          and rest = "[0x44, 0x49, 0x44, 0x58, 0, 0, 0, 0]"])
       (simp_all add: data_before_index_def maxint64_def encode_SectionHeader_def
          dataHeaderId_def LittleEndian_PutUint32_def new_File_def)
  then show ?thesis
    by (simp add: NewFile_def NewFile2_def NewSectionReader_def Let_def)
qed

text \<open>What the index loop keeps true: every listed id maps to a descriptor with that id.\<close>

definition index_consistent :: "DataIndexSection \<Rightarrow> bool" where
  "index_consistent idx \<longleftrightarrow>
     distinct (WemIds idx)
     \<and> (\<forall>k\<in>set (WemIds idx). \<exists>d. DescriptorMap idx k = Some d \<and> WemId d = k)
     \<and> dom (DescriptorMap idx) = set (WemIds idx)"

lemma NewDataIndexSection_loop_consistent:
  assumes "NewDataIndexSection_loop n r sec = Inr (sec', r')" and "index_consistent sec"
  shows "index_consistent sec' \<and> Header_i sec' = Header_i sec"
  using assms
proof (induction n arbitrary: r sec)
  case 0
  then show ?case by simp
next
  case (Suc n)
  from Suc.prems(1) obtain buf r1 where rd: "binary_Read r 12 = (Inr buf, r1)"
    by (auto split: prod.splits sum.splits)
  define d where "d = decode_WemDescriptor buf"
  define sec1 where "sec1 = sec\<lparr>WemIds := WemIds sec @ [WemId d],
      DescriptorMap := (DescriptorMap sec)(WemId d \<mapsto> d)\<rparr>"
  from Suc.prems(1) rd have fresh: "DescriptorMap sec (WemId d) = None"
    and l: "NewDataIndexSection_loop n r1 sec1 = Inr (sec', r')"
    by (auto simp: Let_def d_def sec1_def split: if_splits)
  from fresh Suc.prems(2) have "WemId d \<notin> set (WemIds sec)"
    by (auto simp: index_consistent_def)
  with Suc.prems(2) have "index_consistent sec1"
    by (auto simp: index_consistent_def sec1_def)
  from Suc.IH [OF l this] show ?case by (simp add: sec1_def)
qed

lemma NewDataIndexSection_consistent:
  assumes "NewDataIndexSection hdr r = Inr (idx, r')"
  shows "index_consistent idx \<and> Header_i idx = hdr"
proof -
  have "index_consistent \<lparr>Header_i = hdr, WemCount = Length hdr div 12, WemIds = [],
      DescriptorMap = Map.empty\<rparr>"
    by (simp add: index_consistent_def)
  with assms NewDataIndexSection_loop_consistent show ?thesis
    by (fastforce simp: NewDataIndexSection_def Let_def split: if_splits)
qed

lemma NewDataSection_Wems:
  assumes "NewDataSection hdr sr (Some idx) = Inr (data, sr')"
  shows "Header_d data = hdr"
    and "Wems data = map (NewDataSection_wem hdr (as_ReaderAt sr) (fst (fst (SectionReader_Seek sr 0))) idx)
                       [0..<length (WemIds idx)]"
    and "map Descriptor (Wems data) = map (lookup (DescriptorMap idx)) (WemIds idx)"
proof -
  have a: "as_ReaderAt (snd (SectionReader_Seek sr 0)) = as_ReaderAt sr"
    by (simp add: SectionReader_Seek_def as_ReaderAt_def Let_def)
  from assms show "Header_d data = hdr"
    by (auto simp: NewDataSection_def Let_def split: if_splits)
  from assms show w: "Wems data = map (NewDataSection_wem hdr (as_ReaderAt sr)
        (fst (fst (SectionReader_Seek sr 0))) idx) [0..<length (WemIds idx)]"
    by (auto simp: NewDataSection_def Let_def a split: if_splits)
  show "map Descriptor (Wems data) = map (lookup (DescriptorMap idx)) (WemIds idx)"
    unfolding w
    by (rule nth_equalityI) (simp_all add: NewDataSection_wem_def Let_def)
qed

text \<open>
  A DATA section built from an index: the index is consistent and the wems carry, in
  order, the descriptors that the index gives for its ids in \<open>WemIds\<close> order.
\<close>

definition indexed_by :: "DataIndexSection \<Rightarrow> DataSection \<Rightarrow> bool" where
  "indexed_by idx data \<longleftrightarrow>
     index_consistent idx
     \<and> map Descriptor (Wems data) = map (lookup (DescriptorMap idx)) (WemIds idx)"

lemma indexed_by_parsed:
  assumes "NewDataIndexSection hdr r = Inr (idx, r')"
    and "NewDataSection hdr' sr (Some idx) = Inr (data, sr')"
  shows "indexed_by idx data"
  using NewDataIndexSection_consistent [OF assms(1)] NewDataSection_Wems(3) [OF assms(2)]
  by (simp add: indexed_by_def)

lemma ReplaceWem_index_records:
  assumes idx: "IndexSection bnk = Some idx" and data: "DataSection bnk = Some data"
    and ib: "indexed_by idx data" and rp: "ReplaceWem bnk i rd len = (bnk', None)"
  shows "\<exists>idx'. IndexSection bnk' = Some idx' \<and> Header_i idx' = Header_i idx
           \<and> WemIds idx' = WemIds idx \<and> 0 \<le> i \<and> nat i < length (WemIds idx)
           \<and> map (lookup (DescriptorMap idx')) (WemIds idx')
               = (map (lookup (DescriptorMap idx)) (WemIds idx))
                   [nat i := (lookup (DescriptorMap idx) (WemIds idx ! nat i))
                               \<lparr>Length_w := word_of_int len\<rparr>]"
proof -
  let ?m = "DescriptorMap idx"
  have len_eq: "length (Wems data) = length (WemIds idx)"
    using ib by (metis indexed_by_def length_map)
  from rp data have rng: "0 \<le> i" "nat i < length (Wems data)"
    by (auto simp: ReplaceWem_def Let_def split: if_splits)
  have old: "Descriptor (Wems data ! nat i) = lookup ?m (WemIds idx ! nat i)"
    using ib rng len_eq
    by (metis indexed_by_def nth_map)
  have cons: "index_consistent idx" using ib by (simp add: indexed_by_def)
  have "WemIds idx ! nat i \<in> set (WemIds idx)"
    using rng len_eq by simp
  with cons obtain d0 where "?m (WemIds idx ! nat i) = Some d0" "WemId d0 = WemIds idx ! nat i"
    unfolding index_consistent_def by blast
  then have key: "WemId (lookup ?m (WemIds idx ! nat i)) = WemIds idx ! nat i"
    by (simp add: lookup_def)
  define desc where "desc = (lookup ?m (WemIds idx ! nat i))\<lparr>Length_w := word_of_int len\<rparr>"
  define idx' where "idx' = idx\<lparr>DescriptorMap := ?m(WemIds idx ! nat i \<mapsto> desc)\<rparr>"
  have desc_eq: "\<lparr>WemId = WemIds idx ! nat i,
                  Offset = Offset (lookup ?m (WemIds idx ! nat i)),
                  Length_w = word_of_int len\<rparr> = desc"
    using key by (simp add: desc_def)
  have i': "IndexSection bnk' = Some idx'"
    using rp data idx rng
    by (auto simp: ReplaceWem_def Let_def old key desc_eq idx'_def split: if_splits)
  have "map (lookup (DescriptorMap idx')) (WemIds idx')
      = (map (lookup ?m) (WemIds idx))[nat i := desc]"
  proof (rule nth_equalityI)
    show "length (map (lookup (DescriptorMap idx')) (WemIds idx'))
        = length ((map (lookup ?m) (WemIds idx))[nat i := desc])"
      by (simp add: idx'_def)
  next
    fix j assume "j < length (map (lookup (DescriptorMap idx')) (WemIds idx'))"
    then have j: "j < length (WemIds idx)" by (simp add: idx'_def)
    have d: "distinct (WemIds idx)" using cons by (simp add: index_consistent_def)
    have "WemIds idx ! j = WemIds idx ! nat i \<longleftrightarrow> j = nat i"
      using d j rng len_eq by (simp add: nth_eq_iff_index_eq)
    then show "map (lookup (DescriptorMap idx')) (WemIds idx') ! j
        = (map (lookup ?m) (WemIds idx))[nat i := desc] ! j"
      using j by (auto simp: idx'_def lookup_def nth_list_update)
  qed
  with i' rng len_eq show ?thesis
    by (auto simp: idx'_def desc_def)
qed

text \<open>
  The span of a wem is its descriptor's length plus its \<open>RemainingLength\<close>; the total
  span of a DATA section is the sum over its wems.
\<close>

definition span :: "Wem \<Rightarrow> int" where
  "span w = uint (Length_w (Descriptor w)) + RemainingLength w"

definition total_span :: "DataSection \<Rightarrow> int" where
  "total_span data = sum_list (map span (Wems data))"

lemma sum_list_telescope:
  "sum_list (map (\<lambda>i. g (Suc i) - g i) [0..<n]) = g n - (g 0 :: int)"
  by (induction n) simp_all

lemma NewDataSection_total_span:
  assumes "NewDataSection hdr sr (Some idx) = Inr (data, sr')" and "WemIds idx \<noteq> []"
  shows "total_span data = uint (Length hdr) - uint (Offset (Descriptor (hd (Wems data))))"
    and "Wems data \<noteq> []"
proof -
  define n where "n = length (WemIds idx)"
  define D where "D = fst (fst (SectionReader_Seek sr 0))"
  define g where "g j = (if j < n then uint (Offset (lookup (DescriptorMap idx) (WemIds idx ! j)))
                         else uint (Length hdr))" for j
  note W = NewDataSection_Wems(2) [OF assms(1), folded D_def n_def]
  have n: "0 < n" using assms(2) by (simp add: n_def)
  have sp: "span (NewDataSection_wem hdr (as_ReaderAt sr) D idx i) = g (Suc i) - g i"
    if "i < n" for i
  proof (cases "Suc i < n")
    case True
    with that show ?thesis
      by (simp add: span_def NewDataSection_wem_def Let_def g_def n_def [symmetric])
  next
    case False
    with that have "int i = int n - 1" by auto
    with that False show ?thesis
      by (simp add: span_def NewDataSection_wem_def Let_def g_def n_def [symmetric])
  qed
  have "total_span data = sum_list (map (\<lambda>i. g (Suc i) - g i) [0..<n])"
    unfolding total_span_def W map_map
    by (rule arg_cong [where f = sum_list], rule map_cong) (simp_all add: sp)
  also have "\<dots> = g n - g 0" by (rule sum_list_telescope)
  finally have ts: "total_span data = g n - g 0" .
  show ne: "Wems data \<noteq> []" using n by (simp add: W)
  have "hd (Wems data) = NewDataSection_wem hdr (as_ReaderAt sr) D idx 0"
    using n by (simp add: W hd_map upt_conv_Cons)
  then have "Descriptor (hd (Wems data)) = lookup (DescriptorMap idx) (WemIds idx ! 0)"
    by (simp add: NewDataSection_wem_def Let_def)
  with ts n show "total_span data = uint (Length hdr) - uint (Offset (Descriptor (hd (Wems data))))"
    by (simp add: g_def)
qed

lemma NewDataSection_empty:
  assumes "NewDataSection hdr sr (Some idx) = Inr (data, sr')" and "WemIds idx = []"
  shows "Wems data = []"
  using NewDataSection_Wems(2) [OF assms(1)] assms(2) by simp

lemma NewFile_loop_total_span:
  assumes "NewFile_loop bs off bnk = Inr bnk'" and "DataSection bnk = None"
    and "DataSection bnk' = Some data" and "Wems data \<noteq> []"
  shows "total_span data
           = uint (Length (Header_d data)) - uint (Offset (Descriptor (hd (Wems data))))"
proof -
  let ?P = "\<lambda>b. \<forall>d. DataSection b = Some d \<longrightarrow> Wems d \<noteq> [] \<longrightarrow>
      total_span d = uint (Length (Header_d d)) - uint (Offset (Descriptor (hd (Wems d))))"
  have "?P bnk'"
  proof (rule NewFile_loop_invariant [OF assms(1), where P = ?P])
    show "?P bnk" using assms(2) by simp
  next
    fix b :: File and hdr sr sec sr'
    assume P: "?P b" and "Identifier hdr = dataHeaderId"
      and nd: "NewDataSection hdr sr (IndexSection b) = Inr (sec, sr')"
    from nd obtain idx where idx: "IndexSection b = Some idx"
      by (auto simp: NewDataSection_def Let_def split: if_splits option.splits)
    show "?P (b\<lparr>DataSection := Some sec\<rparr>)"
    proof (cases "WemIds idx = []")
      case True
      with NewDataSection_empty [OF nd [unfolded idx]] show ?thesis by simp
    next
      case False
      with NewDataSection_total_span(1) [OF nd [unfolded idx]]
        NewDataSection_Wems(1) [OF nd [unfolded idx]]
      show ?thesis by simp
    qed
  qed simp_all
  with assms(3,4) show ?thesis by blast
qed

lemma int64_id: "- (2 ^ 63) \<le> x \<Longrightarrow> x < 2 ^ 63 \<Longrightarrow> int64 x = x"
  by (simp add: int64_def)

lemma ReplaceWem_span:
  assumes rp: "ReplaceWem bnk i rd len = (bnk', None)" and len: "0 \<le> len"
    and rl: "0 \<le> RemainingLength (wems_of bnk ! nat i)"
            "RemainingLength (wems_of bnk ! nat i) < 2 ^ 62"
  shows "\<exists>rr. RemainingReader (wems_of bnk' ! nat i) = Some rr
           \<and> uint (Length_w (Descriptor (wems_of bnk' ! nat i))) = len
           \<and> sr_limit (Reader (wems_of bnk' ! nat i)) - sr_off (Reader (wems_of bnk' ! nat i)) = len
           \<and> copied rr = replicate (nat (span (wems_of bnk ! nat i) - len)) 0
           \<and> copy_err rr = None
           \<and> len + int (length (copied rr)) = span (wems_of bnk ! nat i)"
proof -
  from rp obtain data where data: "DataSection bnk = Some data"
    by (auto simp: ReplaceWem_def split: option.splits)
  from rp data have rng: "0 \<le> i" "nat i < length (Wems data)"
    and le: "len \<le> uint (Length_w (Descriptor (Wems data ! nat i)))"
    by (auto simp: ReplaceWem_def Let_def split: if_splits)
  define w where "w = Wems data ! nat i"
  define old where "old = uint (Length_w (Descriptor w))"
  have w: "wems_of bnk ! nat i = w" by (simp add: wems_of_def data w_def)
  have old_b: "0 \<le> old" "old < 2 ^ 32"
    using uint_lt2p [of "Length_w (Descriptor w)"] by (simp_all add: old_def)
  have d1: "int64 (old - len) = old - len"
    using old_b len le by (intro int64_id) (simp_all add: old_def w_def)
  have d2: "int64 (old - len + RemainingLength w) = old - len + RemainingLength w"
    using old_b len le rl by (intro int64_id) (simp_all add: old_def w_def w)
  define rem where "rem = old - len + RemainingLength w"
  have rem0: "0 \<le> rem" "rem < 2 ^ 63"
    using old_b len le rl by (simp_all add: rem_def old_def w_def w)
  have m1: "int64 (maxint64 - rem) = maxint64 - rem" "0 \<le> maxint64 - rem"
    using rem0 by (simp_all add: int64_def maxint64_def)
  have len63: "len < 2 ^ 63" using le old_b by (simp add: old_def w_def)
  have m2: "int64 (maxint64 - len) = maxint64 - len" "0 \<le> maxint64 - len"
    using len len63 by (simp_all add: int64_def maxint64_def)
  define w' where "w' = w\<lparr>Reader := NewSectionReader rd 0 len,
      RemainingReader := Some (NewSectionReader (InfiniteReaderAt 0) 0 rem),
      Descriptor := \<lparr>WemId = WemId (Descriptor w), Offset = Offset (Descriptor w),
                     Length_w = word_of_int len\<rparr>\<rparr>"
  have "wems_of bnk' = (Wems data)[nat i := w']"
    using rp data rng le
    by (auto simp: ReplaceWem_def Let_def wems_of_def w'_def w_def [symmetric]
        old_def [symmetric] d1 d2 rem_def split: option.splits if_splits)
  then have w'': "wems_of bnk' ! nat i = w'" using rng by simp
  let ?rr = "NewSectionReader (InfiniteReaderAt 0) 0 rem"
  have rr: "sr_r ?rr = InfiniteReaderAt 0" "sr_limit ?rr - sr_off ?rr = rem"
    using m1 by (simp_all add: NewSectionReader_def Let_def)
  have c: "copied ?rr = replicate (nat rem) 0" "copy_err ?rr = None"
    using copied_Infinite [OF rr(1)] rr(2) by simp_all
  have u: "uint (word_of_int len :: uint32) = len"
    using len le old_b by (simp add: uint_word_of_int old_def w_def)
  have sp: "span w - len = rem" by (simp add: span_def rem_def old_def)
  have rd: "sr_limit (NewSectionReader rd 0 len) - sr_off (NewSectionReader rd 0 len) = len"
    using m2 by (simp add: NewSectionReader_def Let_def)
  show ?thesis
    unfolding w'' w
    using c u sp rd rem0 by (simp add: w'_def)
qed

text \<open>
  A bank whose only wem starts 4 bytes into the DATA section: a BKHD section, a DIDX
  section with the record \<open>(1, 4, 4)\<close>, and a DATA section of length 8.
  \<open>first_offset_File\<close> is what \<^verbatim>\<open>NewFile\<close> builds from it.
\<close>

definition first_offset :: "byte list" where
  "first_offset =
     [0x42, 0x4B, 0x48, 0x44, 8, 0, 0, 0,   1, 0, 0, 0, 2, 0, 0, 0,
      0x44, 0x49, 0x44, 0x58, 12, 0, 0, 0,  1, 0, 0, 0, 4, 0, 0, 0, 4, 0, 0, 0,
      0x44, 0x41, 0x54, 0x41, 8, 0, 0, 0,   0x11, 0x22, 0x33, 0x44, 0xAA, 0xAA, 0xAA, 0xAA]"

definition first_offset_data :: DataSection where
  "first_offset_data =
     \<lparr>Header_d = \<lparr>Identifier = dataHeaderId, Length = 8\<rparr>, DataStart = 44,
      Wems =
        [\<lparr>Reader = \<lparr>sr_r = SectionReaderAt (BytesReaderAt first_offset) 0 maxint64,
                    sr_base = 48, sr_off = 48, sr_limit = 52\<rparr>,
          Descriptor = \<lparr>WemId = 1, Offset = 4, Length_w = 4\<rparr>,
          RemainingReader = Some
            \<lparr>sr_r = SectionReaderAt (BytesReaderAt first_offset) 0 maxint64,
             sr_base = 52, sr_off = 52, sr_limit = 52\<rparr>,
          RemainingLength = 0\<rparr>]\<rparr>"

definition first_offset_File :: File where
  "first_offset_File =
     \<lparr>closer = None,
      BankHeaderSection = Some
        \<lparr>Header_b = \<lparr>Identifier = bkhdHeaderId, Length = 8\<rparr>,
         Descriptor_b = \<lparr>Version = 1, BankId = 2\<rparr>,
         RemainingReader_b =
           \<lparr>sr_r = SectionReaderAt (BytesReaderAt first_offset) 0 maxint64,
            sr_base = 16, sr_off = 16, sr_limit = 16\<rparr>\<rparr>,
      IndexSection = Some
        \<lparr>Header_i = \<lparr>Identifier = didxHeaderId, Length = 12\<rparr>, WemCount = 1, WemIds = [1],
         DescriptorMap = [1 \<mapsto> \<lparr>WemId = 1, Offset = 4, Length_w = 4\<rparr>]\<rparr>,
      DataSection = Some first_offset_data,
      Others = []\<rparr>"

lemma NewFile_first_offset: "NewFile first_offset = Inr first_offset_File"
  unfolding first_offset_File_def first_offset_data_def first_offset_def
  by (simp add: parse_eval)

text \<open>
  Claim C2 (total span), as amended. In a \<^verbatim>\<open>File\<close> returned by \<^verbatim>\<open>NewFile\<close> the DATA
  section is present, and when it has wems the sum of \<open>Descriptor.Length +
  RemainingLength\<close> over them is the declared length of the DATA section minus the
  \<open>Offset\<close> of the first wem. A successful \<^verbatim>\<open>ReplaceWem\<close> with a non-negative new length,
  on a wem whose \<open>RemainingLength\<close> is not negative, gives the wem a payload reader of
  the new length and a padding reader that yields zero bytes, as many as the wem's
  \<open>Descriptor.Length + RemainingLength\<close> before the call exceeds the new length: new
  payload length plus padding written is the old span.
\<close>

theorem total_span_invariance:
  "(NewFile bs = Inr bnk \<longrightarrow>
      (\<exists>data. DataSection bnk = Some data
         \<and> (Wems data \<noteq> [] \<longrightarrow>
              total_span data
                = uint (Length (Header_d data)) - uint (Offset (Descriptor (hd (Wems data)))))))
   \<and> (ReplaceWem bnk0 i rd len = (bnk', None) \<and> 0 \<le> len
        \<and> 0 \<le> RemainingLength (wems_of bnk0 ! nat i)
        \<and> RemainingLength (wems_of bnk0 ! nat i) < 2 ^ 62 \<longrightarrow>
      (\<exists>rr. RemainingReader (wems_of bnk' ! nat i) = Some rr
         \<and> uint (Length_w (Descriptor (wems_of bnk' ! nat i))) = len
         \<and> sr_limit (Reader (wems_of bnk' ! nat i)) - sr_off (Reader (wems_of bnk' ! nat i))
             = len
         \<and> copied rr = replicate (nat (span (wems_of bnk0 ! nat i) - len)) 0
         \<and> copy_err rr = None
         \<and> len + int (length (copied rr)) = span (wems_of bnk0 ! nat i)))"
proof (intro conjI impI)
  assume nf: "NewFile bs = Inr bnk"
  then obtain data where l: "NewFile_loop bs 0 new_File = Inr bnk" and d: "DataSection bnk = Some data"
    by (auto simp: NewFile_def NewSectionReader_def Let_def split: sum.splits if_splits)
  have "total_span data
      = uint (Length (Header_d data)) - uint (Offset (Descriptor (hd (Wems data))))"
    if "Wems data \<noteq> []"
    by (rule NewFile_loop_total_span [OF l _ d that]) (simp add: new_File_def)
  with d show "\<exists>data. DataSection bnk = Some data
         \<and> (Wems data \<noteq> [] \<longrightarrow>
              total_span data
                = uint (Length (Header_d data)) - uint (Offset (Descriptor (hd (Wems data)))))"
    by blast
next
  assume "ReplaceWem bnk0 i rd len = (bnk', None) \<and> 0 \<le> len
        \<and> 0 \<le> RemainingLength (wems_of bnk0 ! nat i)
        \<and> RemainingLength (wems_of bnk0 ! nat i) < 2 ^ 62"
  then show "\<exists>rr. RemainingReader (wems_of bnk' ! nat i) = Some rr
         \<and> uint (Length_w (Descriptor (wems_of bnk' ! nat i))) = len
         \<and> sr_limit (Reader (wems_of bnk' ! nat i)) - sr_off (Reader (wems_of bnk' ! nat i))
             = len
         \<and> copied rr = replicate (nat (span (wems_of bnk0 ! nat i) - len)) 0
         \<and> copy_err rr = None
         \<and> len + int (length (copied rr)) = span (wems_of bnk0 ! nat i)"
    using ReplaceWem_span by blast
qed

theorem total_span_invariance_witness:
  "NewFile scenario = Inr scenario_File
   \<and> Wems (the (DataSection scenario_File)) \<noteq> []
   \<and> total_span (the (DataSection scenario_File)) = 8
   \<and> uint (Length (Header_d (the (DataSection scenario_File)))) = 8
   \<and> uint (Offset (Descriptor (hd (Wems (the (DataSection scenario_File)))))) = 0
   \<and> ReplaceWem scenario_File 0 (BytesReaderAt [0xBB, 0xBB]) 2 = (scenario_replaced, None)
   \<and> (0::int) \<le> 2
   \<and> 0 \<le> RemainingLength (wems_of scenario_File ! nat 0)
   \<and> RemainingLength (wems_of scenario_File ! nat 0) < 2 ^ 62
   \<and> span (wems_of scenario_File ! nat 0) = 8
   \<and> uint (Length_w (Descriptor (wems_of scenario_replaced ! nat 0))) = 2
   \<and> copied (the (RemainingReader (wems_of scenario_replaced ! nat 0))) = replicate 6 0"
proof -
  have f: "Wems (the (DataSection scenario_File)) \<noteq> []"
    "uint (Length (Header_d (the (DataSection scenario_File)))) = 8"
    "uint (Offset (Descriptor (hd (Wems (the (DataSection scenario_File)))))) = 0"
    "0 \<le> RemainingLength (wems_of scenario_File ! nat 0)"
    "RemainingLength (wems_of scenario_File ! nat 0) < 2 ^ 62"
    "span (wems_of scenario_File ! nat 0) = 8"
    by (simp_all add: scenario_File_def wems_of_def span_def)
  note T = total_span_invariance [of scenario scenario_File scenario_File 0
      "BytesReaderAt [0xBB, 0xBB]" 2 scenario_replaced]
  from T NewFile_scenario f(1,2,3) have ts: "total_span (the (DataSection scenario_File)) = 8"
    by auto
  from T ReplaceWem_scenario f(4,5)
  obtain rr where "RemainingReader (wems_of scenario_replaced ! nat 0) = Some rr"
    "uint (Length_w (Descriptor (wems_of scenario_replaced ! nat 0))) = 2"
    "copied rr = replicate (nat (span (wems_of scenario_File ! nat 0) - 2)) 0"
    by auto
  with f(6) have "uint (Length_w (Descriptor (wems_of scenario_replaced ! nat 0))) = 2"
    "copied (the (RemainingReader (wems_of scenario_replaced ! nat 0))) = replicate 6 0"
    by (simp_all add: numeral_eq_Suc)
  with ts f NewFile_scenario ReplaceWem_scenario show ?thesis by simp
qed

text \<open>
  The claim as stated fails when the first wem does not start at offset 0: here the
  declared length of the DATA section is 8 and the total span is 4.
\<close>

theorem total_span_counterexample:
  "NewFile first_offset = Inr first_offset_File
   \<and> DataSection first_offset_File = Some first_offset_data
   \<and> uint (Length (Header_d first_offset_data)) = 8
   \<and> total_span first_offset_data = 4"
  using NewFile_first_offset
  by (simp add: first_offset_File_def first_offset_data_def total_span_def span_def)

section \<open>The layout of a bank as a list of chunks\<close>

text \<open>
  The byte layout of the specification (section 6): a bank is a sequence of chunks, each
  a 4-byte tag, the length of the payload as a little-endian \<^verbatim>\<open>u32\<close>, and the payload.
\<close>

record chunk =
  tag :: ident
  payload :: "byte list"

definition chunk_header :: "chunk \<Rightarrow> SectionHeader" where
  "chunk_header c = \<lparr>Identifier = tag c, Length = of_nat (length (payload c))\<rparr>"

definition encode_chunk :: "chunk \<Rightarrow> byte list" where
  "encode_chunk c = encode_SectionHeader (chunk_header c) @ payload c"

lemma length_encode_chunk [simp]: "length (encode_chunk c) = 8 + length (payload c)"
  by (simp add: encode_chunk_def)

lemma uint_chunk_Length:
  "length (payload c) < 2 ^ 32 \<Longrightarrow> uint (Length (chunk_header c)) = int (length (payload c))"
  by (simp add: chunk_header_def uint_nat unat_of_nat)

text \<open>A section reader over the source, as the parser makes them.\<close>

lemma source_section:
  assumes "0 \<le> start" and "0 \<le> n" and "start + n \<le> maxint64"
  shows "reads_bytes (NewSectionReader (as_ReaderAt (source_reader bs off)) start n) bs"
    and "copied (NewSectionReader (as_ReaderAt (source_reader bs off)) start n)
           = take (nat n) (drop (nat start) bs)"
    and "copy_err (NewSectionReader (as_ReaderAt (source_reader bs off)) start n) = None"
proof -
  let ?s = "NewSectionReader (as_ReaderAt (source_reader bs off)) start n"
  have i: "int64 (maxint64 - n) = maxint64 - n"
    using assms by (simp add: int64_def maxint64_def)
  have f: "sr_r ?s = SectionReaderAt (BytesReaderAt bs) 0 maxint64" "sr_off ?s = start"
    "sr_limit ?s = start + n"
    using assms by (simp_all add: NewSectionReader_def Let_def i as_ReaderAt_def source_reader_simps)
  show rb: "reads_bytes ?s bs"
    using assms f by (simp add: reads_bytes_def)
  show "copied ?s = take (nat n) (drop (nat start) bs)"
    using copied_reads_bytes(1) [OF rb] f by simp
  show "copy_err ?s = None" by (rule copied_reads_bytes(2) [OF rb])
qed

lemma Seek_source [simp]:
  "0 \<le> off \<Longrightarrow> 0 \<le> k \<Longrightarrow> SectionReader_Seek (source_reader bs off) k
     = ((k + off, None), source_reader bs (k + off))"
  by (simp add: SectionReader_Seek_def Let_def source_reader_simps)

text \<open>
  A chunk \<open>c\<close> lies at \<open>off\<close> in \<open>bs\<close>. The facts the parsers need about it.
\<close>

definition chunk_at :: "byte list \<Rightarrow> int \<Rightarrow> chunk \<Rightarrow> bool" where
  "chunk_at bs off c \<longleftrightarrow>
     0 \<le> off \<and> int (length bs) \<le> maxint64 \<and> length (payload c) < 2 ^ 32
     \<and> take (8 + length (payload c)) (drop (nat off) bs) = encode_chunk c
     \<and> off + 8 + int (length (payload c)) \<le> int (length bs)"

lemma chunk_atI:
  assumes "0 \<le> off" and "int (length bs) \<le> maxint64" and "length (payload c) < 2 ^ 32"
    and "drop (nat off) bs = encode_chunk c @ rest"
  shows "chunk_at bs off c"
proof -
  have "length (drop (nat off) bs) = 8 + length (payload c) + length rest"
    using assms(4) by simp
  then have "off + 8 + int (length (payload c)) \<le> int (length bs)"
    using assms(1) by auto
  with assms show ?thesis by (simp add: chunk_at_def)
qed

lemma chunk_at_payload:
  assumes "chunk_at bs off c"
  shows "take (length (payload c)) (drop (nat (off + 8)) bs) = payload c"
    and "take 8 (drop (nat off) bs) = encode_SectionHeader (chunk_header c)"
proof -
  from assms have t: "take (8 + length (payload c)) (drop (nat off) bs) = encode_chunk c"
    and off: "0 \<le> off" by (simp_all add: chunk_at_def)
  have "take 8 (take (8 + length (payload c)) (drop (nat off) bs))
      = encode_SectionHeader (chunk_header c)"
    unfolding t by (simp add: encode_chunk_def)
  then show "take 8 (drop (nat off) bs) = encode_SectionHeader (chunk_header c)"
    by (simp add: min_def)
  have "drop 8 (take (8 + length (payload c)) (drop (nat off) bs)) = payload c"
    unfolding t by (simp add: encode_chunk_def)
  then show "take (length (payload c)) (drop (nat (off + 8)) bs) = payload c"
    using off by (simp add: drop_take nat_add_distrib add.commute)
qed

lemma NewUnknownSection_chunk:
  assumes "chunk_at bs off c"
  shows "\<exists>u. NewUnknownSection (chunk_header c) (source_reader bs (off + 8))
               = Inr (u, source_reader bs (off + 8 + int (length (payload c))))
           \<and> copy_err (Reader_u u) = None \<and> unknown_out u = encode_chunk c"
proof -
  from assms have off: "0 \<le> off" and mx: "int (length bs) \<le> maxint64"
    and n: "length (payload c) < 2 ^ 32"
    and e: "off + 8 + int (length (payload c)) \<le> int (length bs)"
    by (simp_all add: chunk_at_def)
  note L = uint_chunk_Length [OF n]
  let ?r = "NewSectionReader (as_ReaderAt (source_reader bs (off + 8))) (off + 8)
      (int (length (payload c)))"
  have S: "copied ?r = take (nat (int (length (payload c)))) (drop (nat (off + 8)) bs)"
    "copy_err ?r = None"
    using source_section(2,3) [of "off + 8" "int (length (payload c))" bs "off + 8"] off mx e
    by simp_all
  have "NewUnknownSection (chunk_header c) (source_reader bs (off + 8))
      = Inr (\<lparr>Header_u = chunk_header c, Reader_u = ?r\<rparr>,
             source_reader bs (off + 8 + int (length (payload c))))"
    using off by (simp add: NewUnknownSection_def Let_def L as_ReaderAt_def source_reader_simps
        add.commute add.left_commute)
  moreover have "unknown_out \<lparr>Header_u = chunk_header c, Reader_u = ?r\<rparr> = encode_chunk c"
    using S chunk_at_payload(1) [OF assms] by (simp add: unknown_out_def encode_chunk_def)
  ultimately show ?thesis using S(2) by auto
qed

lemma chunk_at_drop:
  assumes "chunk_at bs off c"
  shows "drop (nat (off + 8)) bs
           = payload c @ drop (length (payload c)) (drop (nat (off + 8)) bs)"
  using chunk_at_payload(1) [OF assms]
  by (metis append_take_drop_id)

lemma Identifier_chunk_header [simp]: "Identifier (chunk_header c) = tag c"
  by (simp add: chunk_header_def)

lemma unat_chunk_Length:
  "length (payload c) < 2 ^ 32 \<Longrightarrow> unat (Length (chunk_header c)) = length (payload c)"
  by (simp add: chunk_header_def unat_of_nat)

lemma NewBankHeaderSection_chunk:
  assumes at: "chunk_at bs off c" and "tag c = bkhdHeaderId" and n8: "8 \<le> length (payload c)"
  shows "\<exists>b. NewBankHeaderSection (chunk_header c) (source_reader bs (off + 8))
               = Inr (b, source_reader bs (off + 8 + int (length (payload c))))
           \<and> fst (BankHeaderSection_WriteTo b)
               = (encode_chunk c, int (length (encode_chunk c)), None)"
proof -
  define n where "n = length (payload c)"
  from at have off: "0 \<le> off" and mx: "int (length bs) \<le> maxint64"
    and n: "n < 2 ^ 32" and e: "off + 8 + int n \<le> int (length bs)"
    by (simp_all add: chunk_at_def n_def)
  note L = uint_chunk_Length [of c, folded n_def, OF n]
  have dr: "drop (nat (off + 8)) bs
      = take 8 (payload c) @ (drop 8 (payload c) @ drop n (drop (nat (off + 8)) bs))"
    using chunk_at_drop [OF at] by (simp add: n_def)
  have rd: "binary_Read (source_reader bs (off + 8)) 8
      = (Inr (take 8 (payload c)), source_reader bs (off + 8 + int 8))"
    by (rule binary_Read_source_prefix [OF _ dr _ _ mx]) (use off n8 in simp_all)
  have "uint (8 :: uint32) \<le> uint (Length (chunk_header c))"
    using L n8 by (simp add: n_def)
  then have "uint (Length (chunk_header c) - 8) = uint (Length (chunk_header c)) - uint (8 :: uint32)"
    by (rule uint_sub_lem [THEN iffD1])
  then have rem: "uint (Length (chunk_header c) - 8) = int n - 8"
    by (simp add: L)
  let ?rr = "NewSectionReader (as_ReaderAt (source_reader bs (off + 16))) (off + 16) (int n - 8)"
  let ?b = "\<lparr>Header_b = chunk_header c, Descriptor_b = decode_BankDescriptor (take 8 (payload c)),
      RemainingReader_b = ?rr\<rparr>"
  have nb: "NewBankHeaderSection (chunk_header c) (source_reader bs (off + 8))
      = Inr (?b, source_reader bs (off + 8 + int n))"
    using off n8 assms(2)
    by (simp add: NewBankHeaderSection_def rd Let_def rem n_def
        add.commute add.left_commute)
  have S: "copied ?rr = take (nat (int n - 8)) (drop (nat (off + 16)) bs)" "copy_err ?rr = None"
    using source_section(2,3) [of "off + 16" "int n - 8" bs "off + 16"] off mx e n8
    by (simp_all add: n_def)
  have "take (n - 8) (drop 8 (drop (nat (off + 8)) bs)) = drop 8 (payload c)"
    using chunk_at_payload(1) [OF at] by (metis drop_take n_def)
  moreover have "drop 8 (drop (nat (off + 8)) bs) = drop (nat (off + 16)) bs"
    using off by (simp add: nat_add_distrib add.commute)
  moreover have "nat (int n - 8) = n - 8" by simp
  ultimately have c: "copied ?rr = drop 8 (payload c)"
    using S(1) by simp
  have d: "encode_BankDescriptor (decode_BankDescriptor (take 8 (payload c))) = take 8 (payload c)"
    by (rule encode_decode_BankDescriptor) (use n8 in simp)
  have "fst (BankHeaderSection_WriteTo ?b) = (encode_chunk c, int (length (encode_chunk c)), None)"
    using n8 by (simp add: BankHeaderSection_WriteTo_eq S(2) c d encode_chunk_def)
  with nb show ?thesis unfolding n_def by blast
qed

text \<open>An index that holds exactly the records \<open>recs\<close>, in that order.\<close>

definition index_of :: "DataIndexSection \<Rightarrow> WemDescriptor list \<Rightarrow> bool" where
  "index_of idx recs \<longleftrightarrow>
     WemIds idx = map WemId recs \<and> (\<forall>d\<in>set recs. DescriptorMap idx (WemId d) = Some d)"

lemma index_of_lookup:
  "index_of idx recs \<Longrightarrow> map (lookup (DescriptorMap idx)) (WemIds idx) = recs"
  by (auto simp: index_of_def lookup_def intro!: nth_equalityI)

lemma NewDataIndexSection_chunk:
  assumes at: "chunk_at bs off c" and "tag c = didxHeaderId"
    and p: "payload c = concat (map encode_WemDescriptor recs)"
    and d: "distinct (map WemId recs)"
  shows "\<exists>idx. NewDataIndexSection (chunk_header c) (source_reader bs (off + 8))
               = Inr (idx, source_reader bs (off + 8 + int (length (payload c))))
           \<and> index_of idx recs
           \<and> DataIndexSection_WriteTo idx
               = (encode_chunk c, int (length (encode_chunk c)), None)"
proof -
  define k where "k = length recs"
  have n: "length (payload c) = 12 * k"
    unfolding p k_def by (induction recs) simp_all
  from at have off: "0 \<le> off" and mx: "int (length bs) \<le> maxint64"
    and n32: "length (payload c) < 2 ^ 32"
    by (simp_all add: chunk_at_def)
  have "unat (Length (chunk_header c)) = 12 * k"
    using unat_chunk_Length [OF n32] n by simp
  then have cnt: "unat (Length (chunk_header c) div 12) = k"
    by (simp add: unat_div)
  let ?sec = "\<lparr>Header_i = chunk_header c, WemCount = Length (chunk_header c) div 12,
      WemIds = [], DescriptorMap = Map.empty\<rparr>"
  have dr: "drop (nat (off + 8)) bs = concat (map encode_WemDescriptor recs)
      @ drop (length (payload c)) (drop (nat (off + 8)) bs)"
    using chunk_at_drop [OF at] by (simp add: p)
  have "NewDataIndexSection_loop (length recs) (source_reader bs (off + 8)) ?sec
      = Inr (index_add ?sec recs, source_reader bs (off + 8 + 12 * int (length recs)))"
    by (rule NewDataIndexSection_loop_reads [OF _ dr mx d]) (use off in simp_all)
  then have nd: "NewDataIndexSection (chunk_header c) (source_reader bs (off + 8))
      = Inr (index_add ?sec recs, source_reader bs (off + 8 + int (length (payload c))))"
    using assms(2)
    by (simp add: NewDataIndexSection_def Let_def cnt k_def [symmetric] n)
  have io: "index_of (index_add ?sec recs) recs"
    using d by (simp add: index_of_def index_add_def fold_upd_in)
  define idx where "idx = index_add ?sec recs"
  have h: "Header_i idx = chunk_header c" "length (WemIds idx) = k"
    by (simp_all add: idx_def index_add_def k_def)
  have "map (\<lambda>k. encode_WemDescriptor (lookup (DescriptorMap idx) k)) (WemIds idx)
      = map encode_WemDescriptor (map (lookup (DescriptorMap idx)) (WemIds idx))"
    by simp
  also have "\<dots> = map encode_WemDescriptor recs"
    by (simp only: index_of_lookup [OF io [folded idx_def]])
  finally have m: "map (\<lambda>k. encode_WemDescriptor (lookup (DescriptorMap idx) k)) (WemIds idx)
      = map encode_WemDescriptor recs" .
  have "DataIndexSection_WriteTo idx = (encode_chunk c, int (length (encode_chunk c)), None)"
    unfolding DataIndexSection_WriteTo_eq m h
    by (simp add: encode_chunk_def p [symmetric] n)
  then have "DataIndexSection_WriteTo (index_add ?sec recs)
      = (encode_chunk c, int (length (encode_chunk c)), None)"
    by (simp only: idx_def)
  with nd io show ?thesis by blast
qed

text \<open>
  The records of an index tile a DATA payload of \<open>n\<close> bytes: the first wem starts at
  offset 0, no wem reaches beyond the start of the next one, and the last wem ends within
  the payload. With no record at all the payload is empty.
\<close>

definition tiles :: "WemDescriptor list \<Rightarrow> nat \<Rightarrow> bool" where
  "tiles recs n \<longleftrightarrow>
     (if recs = [] then n = 0
      else Offset (hd recs) = 0
        \<and> (\<forall>i. Suc i < length recs \<longrightarrow>
              uint (Offset (recs ! i)) + uint (Length_w (recs ! i))
                \<le> uint (Offset (recs ! Suc i)))
        \<and> uint (Offset (last recs)) + uint (Length_w (last recs)) \<le> int n)"

lemma mono_steps:
  fixes h :: "nat \<Rightarrow> nat"
  assumes "\<And>i. i < k \<Longrightarrow> h i \<le> h (Suc i)" and "j \<le> k"
  shows "h 0 \<le> h j"
  using assms(2)
proof (induction j)
  case 0
  then show ?case by simp
next
  case (Suc j)
  then have "h 0 \<le> h j" "h j \<le> h (Suc j)" using assms(1) by simp_all
  then show ?case by simp
qed

lemma concat_slices:
  fixes h :: "nat \<Rightarrow> nat"
  assumes "\<And>i. i < k \<Longrightarrow> h i \<le> h (Suc i)"
  shows "concat (map (\<lambda>i. take (h (Suc i) - h i) (drop (h i) xs)) [0..<k])
           = take (h k - h 0) (drop (h 0) xs)"
  using assms
proof (induction k)
  case 0
  then show ?case by simp
next
  case (Suc k)
  have le: "h 0 \<le> h k" by (rule mono_steps [of "Suc k"]) (use Suc.prems in simp_all)
  have st: "h k \<le> h (Suc k)" using Suc.prems by simp
  have IH: "concat (map (\<lambda>i. take (h (Suc i) - h i) (drop (h i) xs)) [0..<k])
      = take (h k - h 0) (drop (h 0) xs)"
    by (rule Suc.IH) (use Suc.prems in simp)
  have d: "drop (h k) xs = drop (h k - h 0) (drop (h 0) xs)"
    using le by simp
  have a: "h (Suc k) - h 0 = (h k - h 0) + (h (Suc k) - h k)"
    using le st by simp
  show ?case
    by (simp add: IH d a take_add del: drop_drop)
qed

lemma NewDataSection_chunk:
  assumes at: "chunk_at bs off c" and tg: "tag c = dataHeaderId"
    and io: "index_of idx recs" and t: "tiles recs (length (payload c))"
  shows "\<exists>data. NewDataSection (chunk_header c) (source_reader bs (off + 8)) (Some idx)
               = Inr (data, source_reader bs (off + 8 + int (length (payload c))))
           \<and> (\<exists>data'. DataSection_WriteTo data
                 = Inr ((encode_chunk c, int (length (encode_chunk c)), None), data'))"
proof -
  define n where "n = length (payload c)"
  define k where "k = length recs"
  define D where "D = off + 8"
  define ra where "ra = as_ReaderAt (source_reader bs D)"
  define h where "h i = (if i < k then nat (uint (Offset (recs ! i))) else n)" for i
  from at have off: "0 \<le> off" and mx: "int (length bs) \<le> maxint64"
    and n32: "n < 2 ^ 32" and e: "D + int n \<le> int (length bs)"
    by (simp_all add: chunk_at_def n_def D_def)
  have D0: "0 \<le> D" using off by (simp add: D_def)
  note L = uint_chunk_Length [of c, folded n_def, OF n32]
  have ids: "length (WemIds idx) = k" using io by (simp add: index_of_def k_def)
  have lk: "lookup (DescriptorMap idx) (WemIds idx ! i) = recs ! i" if "i < k" for i
    using index_of_lookup [OF io] that ids by (metis nth_map)
  have step: "int (h i) + uint (Length_w (recs ! i)) \<le> int (h (Suc i))" if "i < k" for i
  proof (cases "Suc i < k")
    case True
    then have "recs \<noteq> []" by (auto simp: k_def)
    with t have "uint (Offset (recs ! i)) + uint (Length_w (recs ! i))
        \<le> uint (Offset (recs ! Suc i))"
      using True by (simp add: tiles_def k_def)
    with True that show ?thesis by (simp add: h_def)
  next
    case False
    with that have "i = k - 1" "recs \<noteq> []" by (auto simp: k_def)
    then have "recs ! i = last recs" by (simp add: last_conv_nth k_def)
    with t \<open>recs \<noteq> []\<close> that False show ?thesis by (simp add: tiles_def h_def n_def)
  qed
  have hmono: "h i \<le> h (Suc i)" if "i < k" for i
    using step [OF that] uint_ge_0 [of "Length_w (recs ! i)"] by linarith
  have hn: "h j \<le> n" if "j \<le> k" for j
  proof -
    have "\<And>i. i < k - j \<Longrightarrow> h (j + i) \<le> h (j + Suc i)" using hmono by simp
    from mono_steps [of "k - j" "\<lambda>i. h (j + i)" "k - j", OF this] that
    have "h j \<le> h k" by simp
    then show ?thesis by (simp add: h_def)
  qed
  let ?wem = "NewDataSection_wem (chunk_header c) ra D idx"
  have wem: "wem_copies (?wem i)
      \<and> wem_out (?wem i) = take (h (Suc i) - h i) (drop (h i) (drop (nat D) bs))"
    if i: "i < k" for i
  proof -
    define ofs where "ofs = uint (Offset (recs ! i))"
    define len where "len = uint (Length_w (recs ! i))"
    define nx where "nx = int (h (Suc i))"
    have o0: "0 \<le> ofs" "0 \<le> len" by (simp_all add: ofs_def len_def)
    have hi: "int (h i) = ofs" using i by (simp add: h_def ofs_def)
    have st: "ofs + len \<le> nx" using step [OF i] by (simp add: hi len_def nx_def)
    have nn: "nx \<le> int n" using hn [of "Suc i"] i by (simp add: nx_def)
    have n1: "uint (Length (chunk_header c)) = nx" if "1 + int i = int k"
    proof -
      from that have "Suc i = k" by linarith
      then show ?thesis by (simp add: nx_def h_def L)
    qed
    have n2: "uint (Offset (recs ! Suc i)) = nx" if "1 + int i \<noteq> int k"
    proof -
      from that i have "Suc i < k" by linarith
      then show ?thesis by (simp add: nx_def h_def)
    qed
    have lk2: "lookup (DescriptorMap idx) (WemIds idx ! Suc i) = recs ! Suc i"
      if "1 + int i \<noteq> int k"
    proof -
      from that i have "Suc i < k" by linarith
      then show ?thesis by (rule lk)
    qed
    let ?r = "NewSectionReader ra (D + ofs) len"
    let ?p = "NewSectionReader ra (D + ofs + len) (nx - ofs - len)"
    have w: "?wem i = \<lparr>Reader = ?r, Descriptor = recs ! i, RemainingReader = Some ?p,
        RemainingLength = nx - ofs - len\<rparr>"
      using i
      by (simp add: NewDataSection_wem_def Let_def ids lk lk2 n1 n2 ofs_def [symmetric]
          len_def [symmetric] algebra_simps)
    have cr: "copied ?r = take (nat len) (drop (nat (D + ofs)) bs)" "copy_err ?r = None"
      unfolding ra_def
      using source_section(2,3) [of "D + ofs" len bs D] D0 o0 st nn e mx by simp_all
    have cp: "copied ?p = take (nat (nx - ofs - len)) (drop (nat (D + ofs + len)) bs)"
      "copy_err ?p = None"
      unfolding ra_def
      using source_section(2,3) [of "D + ofs + len" "nx - ofs - len" bs D] D0 o0 st nn e mx
      by simp_all
    have d1: "drop (nat (D + ofs + len)) bs = drop (nat len) (drop (nat (D + ofs)) bs)"
      using D0 o0 by (simp add: nat_add_distrib add.commute)
    have a1: "nat (nx - ofs) = nat len + nat (nx - ofs - len)"
      using o0 st by simp
    have "wem_out (?wem i) = take (nat (nx - ofs)) (drop (nat (D + ofs)) bs)"
      unfolding w wem_out_def
      by (simp add: cr cp d1 a1 take_add del: drop_drop)
    moreover have "nat (nx - ofs) = h (Suc i) - h i"
      unfolding nx_def hi [symmetric] by simp
    moreover have "drop (nat (D + ofs)) bs = drop (h i) (drop (nat D) bs)"
      unfolding hi [symmetric] using D0 by (simp add: nat_add_distrib add.commute)
    moreover have "wem_copies (?wem i)"
      unfolding w by (simp add: wem_copies_def cr cp)
    ultimately show ?thesis by simp
  qed
  define data where "data = \<lparr>Header_d = chunk_header c, DataStart = word_of_int D,
      Wems = map ?wem [0..<k]\<rparr>"
  have nd: "NewDataSection (chunk_header c) (source_reader bs D) (Some idx)
      = Inr (data, source_reader bs (D + int n))"
    using D0 tg
    by (simp add: NewDataSection_def Let_def ids L data_def ra_def add.commute)
  have all: "list_all wem_copies (Wems data)"
    using wem by (simp add: data_def list_all_iff)
  have "concat (map wem_out (Wems data))
      = concat (map (\<lambda>i. take (h (Suc i) - h i) (drop (h i) (drop (nat D) bs))) [0..<k])"
  proof -
    have "map wem_out (Wems data)
        = map (\<lambda>i. take (h (Suc i) - h i) (drop (h i) (drop (nat D) bs))) [0..<k]"
      unfolding data_def by (rule nth_equalityI) (simp_all add: wem del: drop_drop)
    then show ?thesis by (rule arg_cong)
  qed
  also have "\<dots> = take (h k - h 0) (drop (h 0) (drop (nat D) bs))"
    by (rule concat_slices) (rule hmono)
  also have "\<dots> = payload c"
  proof (cases "k = 0")
    case True
    with t have "n = 0" by (simp add: tiles_def k_def n_def)
    then show ?thesis by (simp add: n_def h_def True)
  next
    case False
    with t have "h 0 = 0" by (simp add: tiles_def k_def h_def hd_conv_nth)
    moreover have "h k = n" by (simp add: h_def)
    ultimately show ?thesis
      using chunk_at_payload(1) [OF at] by (simp add: n_def D_def)
  qed
  finally have out: "concat (map wem_out (Wems data)) = payload c" .
  from DataSection_WriteTo_eq [OF all] out
  have "\<exists>data'. DataSection_WriteTo data
      = Inr ((encode_chunk c, int (length (encode_chunk c)), None), data')"
    by (simp add: encode_chunk_def data_def)
  with nd show ?thesis unfolding D_def n_def by blast
qed

text \<open>
  What the parse loop has built matches the chunks it has read: \<open>b\<close>, \<open>x\<close> and \<open>d\<close> are the
  last BKHD, DIDX and DATA chunks so far (if any), \<open>us\<close> the other chunks in order, and
  each section writes its chunk back. \<open>recs_of\<close> gives the records of a DIDX chunk.
\<close>

definition good_bkhd :: "BankHeaderSection \<Rightarrow> chunk \<Rightarrow> bool" where
  "good_bkhd sec c \<longleftrightarrow>
     fst (BankHeaderSection_WriteTo sec) = (encode_chunk c, int (length (encode_chunk c)), None)"

definition good_didx :: "(chunk \<Rightarrow> WemDescriptor list) \<Rightarrow> DataIndexSection \<Rightarrow> chunk \<Rightarrow> bool" where
  "good_didx recs_of sec c \<longleftrightarrow>
     index_of sec (recs_of c)
     \<and> DataIndexSection_WriteTo sec = (encode_chunk c, int (length (encode_chunk c)), None)"

definition good_data :: "DataSection \<Rightarrow> chunk \<Rightarrow> bool" where
  "good_data sec c \<longleftrightarrow>
     (\<exists>sec'. DataSection_WriteTo sec
               = Inr ((encode_chunk c, int (length (encode_chunk c)), None), sec'))"

definition good_unknown :: "UnknownSection \<Rightarrow> chunk \<Rightarrow> bool" where
  "good_unknown sec c \<longleftrightarrow> copy_err (Reader_u sec) = None \<and> unknown_out sec = encode_chunk c"

definition represents ::
  "(chunk \<Rightarrow> WemDescriptor list) \<Rightarrow> File
     \<Rightarrow> chunk option \<times> chunk option \<times> chunk option \<times> chunk list \<Rightarrow> bool" where
  "represents recs_of bnk s \<longleftrightarrow>
     (case s of (b, x, d, us) \<Rightarrow>
        rel_option good_bkhd (BankHeaderSection bnk) b
        \<and> rel_option (good_didx recs_of) (IndexSection bnk) x
        \<and> rel_option good_data (DataSection bnk) d
        \<and> list_all2 good_unknown (Others bnk) us)"

fun absorb ::
  "chunk list \<Rightarrow> chunk option \<times> chunk option \<times> chunk option \<times> chunk list
     \<Rightarrow> chunk option \<times> chunk option \<times> chunk option \<times> chunk list" where
  "absorb [] s = s"
| "absorb (c # cs) (b, x, d, us) =
     absorb cs
       (if tag c = bkhdHeaderId then (Some c, x, d, us)
        else if tag c = didxHeaderId then (b, Some c, d, us)
        else if tag c = dataHeaderId then (b, x, Some c, us)
        else (b, x, d, us @ [c]))"

text \<open>
  The chunks the parser reads as the layout intends, \<open>x\<close> being the DIDX chunk in force:
  payloads shorter than \<open>2 ^ 32\<close> bytes, a BKHD payload of at least 8 bytes, a DIDX payload
  made of whole records with distinct ids, a DATA chunk only after a DIDX chunk whose
  records tile it.
\<close>

fun chunks_ok :: "(chunk \<Rightarrow> WemDescriptor list) \<Rightarrow> chunk option \<Rightarrow> chunk list \<Rightarrow> bool" where
  "chunks_ok recs_of x [] = True"
| "chunks_ok recs_of x (c # cs) =
     (length (payload c) < 2 ^ 32 \<and>
      (if tag c = bkhdHeaderId then 8 \<le> length (payload c) \<and> chunks_ok recs_of x cs
       else if tag c = didxHeaderId
       then payload c = concat (map encode_WemDescriptor (recs_of c))
            \<and> distinct (map WemId (recs_of c)) \<and> chunks_ok recs_of (Some c) cs
       else if tag c = dataHeaderId
       then (case x of None \<Rightarrow> False | Some xc \<Rightarrow> tiles (recs_of xc) (length (payload c)))
            \<and> chunks_ok recs_of x cs
       else chunks_ok recs_of x cs))"

lemma tags_distinct:
  "didxHeaderId \<noteq> bkhdHeaderId" "dataHeaderId \<noteq> bkhdHeaderId" "dataHeaderId \<noteq> didxHeaderId"
  by (simp_all add: didxHeaderId_def bkhdHeaderId_def dataHeaderId_def)

lemma NewFile_loop_at:
  assumes at: "chunk_at bs off c"
  shows "NewFile_loop bs off bnk =
     (let hdr = chunk_header c; sr = source_reader bs (off + 8)
      in if tag c = bkhdHeaderId
         then (case NewBankHeaderSection hdr sr of
                 Inl err \<Rightarrow> Inl err
               | Inr (sec, sr') \<Rightarrow>
                   NewFile_loop bs (sr_off sr') (bnk\<lparr>BankHeaderSection := Some sec\<rparr>))
         else if tag c = didxHeaderId
         then (case NewDataIndexSection hdr sr of
                 Inl err \<Rightarrow> Inl err
               | Inr (sec, sr') \<Rightarrow>
                   NewFile_loop bs (sr_off sr') (bnk\<lparr>IndexSection := Some sec\<rparr>))
         else if tag c = dataHeaderId
         then (case NewDataSection hdr sr (IndexSection bnk) of
                 Inl err \<Rightarrow> Inl err
               | Inr (sec, sr') \<Rightarrow>
                   NewFile_loop bs (sr_off sr') (bnk\<lparr>DataSection := Some sec\<rparr>))
         else (case NewUnknownSection hdr sr of
                 Inl err \<Rightarrow> Inl err
               | Inr (sec, sr') \<Rightarrow>
                   NewFile_loop bs (sr_off sr') (bnk\<lparr>Others := Others bnk @ [sec]\<rparr>)))"
proof -
  from at have off: "0 \<le> off" and mx: "int (length bs) \<le> maxint64"
    and e: "off + 8 \<le> int (length bs)"
    by (simp_all add: chunk_at_def)
  show ?thesis
    by (simp add: NewFile_loop_chunk [OF off e mx] chunk_at_payload(2) [OF at] Let_def)
qed

lemma NewFile_loop_chunks:
  assumes "0 \<le> off" and "int (length bs) \<le> maxint64"
    and "drop (nat off) bs = concat (map encode_chunk cs)"
    and "chunks_ok recs_of x cs" and "represents recs_of bnk (b, x, d, us)"
  shows "\<exists>bnk'. NewFile_loop bs off bnk = Inr bnk'
           \<and> represents recs_of bnk' (absorb cs (b, x, d, us))"
  using assms
proof (induction cs arbitrary: off bnk b x d us)
  case Nil
  then have "int (length bs) \<le> off" by simp
  with Nil show ?case by (simp add: NewFile_loop_EOF)
next
  case (Cons c cs)
  define e where "e = off + 8 + int (length (payload c))"
  from Cons.prems(4) have n32: "length (payload c) < 2 ^ 32" by simp
  have at: "chunk_at bs off c"
    by (rule chunk_atI [OF Cons.prems(1,2) n32, of "concat (map encode_chunk cs)"])
       (use Cons.prems(3) in simp)
  have e0: "0 \<le> e" using Cons.prems(1) by (simp add: e_def)
  have "drop (8 + length (payload c)) (drop (nat off) bs) = concat (map encode_chunk cs)"
    using Cons.prems(3) by simp
  moreover have "nat e = nat off + (8 + length (payload c))"
    using Cons.prems(1) by (simp add: e_def nat_add_distrib)
  ultimately have dr: "drop (nat e) bs = concat (map encode_chunk cs)"
    by (simp add: add.commute)
  note rep = Cons.prems(5) [unfolded represents_def, simplified]
  consider (bkhd) "tag c = bkhdHeaderId"
    | (didx) "tag c \<noteq> bkhdHeaderId" "tag c = didxHeaderId"
    | (data) "tag c \<noteq> bkhdHeaderId" "tag c \<noteq> didxHeaderId" "tag c = dataHeaderId"
    | (unknown) "tag c \<noteq> bkhdHeaderId" "tag c \<noteq> didxHeaderId" "tag c \<noteq> dataHeaderId"
    by blast
  then show ?case
  proof cases
    case bkhd
    with Cons.prems(4) have ok: "8 \<le> length (payload c)" "chunks_ok recs_of x cs" by simp_all
    from NewBankHeaderSection_chunk [OF at bkhd ok(1)] obtain sec where
      p: "NewBankHeaderSection (chunk_header c) (source_reader bs (off + 8))
            = Inr (sec, source_reader bs e)"
      and g: "good_bkhd sec c"
      by (auto simp: e_def good_bkhd_def)
    have r: "represents recs_of (bnk\<lparr>BankHeaderSection := Some sec\<rparr>) (Some c, x, d, us)"
      using rep g by (simp add: represents_def)
    from Cons.IH [OF e0 Cons.prems(2) dr ok(2) r]
    show ?thesis
      by (simp add: NewFile_loop_at [OF at] Let_def bkhd p source_reader_simps)
  next
    case didx
    with Cons.prems(4) have ok: "payload c = concat (map encode_WemDescriptor (recs_of c))"
      "distinct (map WemId (recs_of c))" "chunks_ok recs_of (Some c) cs" by simp_all
    from NewDataIndexSection_chunk [OF at didx(2) ok(1,2)] obtain sec where
      p: "NewDataIndexSection (chunk_header c) (source_reader bs (off + 8))
            = Inr (sec, source_reader bs e)"
      and g: "good_didx recs_of sec c"
      by (auto simp: e_def good_didx_def)
    have r: "represents recs_of (bnk\<lparr>IndexSection := Some sec\<rparr>) (b, Some c, d, us)"
      using rep g by (simp add: represents_def)
    from Cons.IH [OF e0 Cons.prems(2) dr ok(3) r]
    show ?thesis
      by (simp add: NewFile_loop_at [OF at] Let_def didx p source_reader_simps tags_distinct)
  next
    case data
    with Cons.prems(4) obtain xc where x: "x = Some xc"
      and ok: "tiles (recs_of xc) (length (payload c))" "chunks_ok recs_of x cs"
      by (auto split: option.splits)
    from rep x obtain idx where idx: "IndexSection bnk = Some idx" "good_didx recs_of idx xc"
      by (auto simp: option_rel_Some2)
    then have io: "index_of idx (recs_of xc)" by (simp add: good_didx_def)
    from NewDataSection_chunk [OF at data(3) io ok(1)] obtain sec where
      p: "NewDataSection (chunk_header c) (source_reader bs (off + 8)) (Some idx)
            = Inr (sec, source_reader bs e)"
      and g: "good_data sec c"
      by (auto simp: e_def good_data_def)
    have r: "represents recs_of (bnk\<lparr>DataSection := Some sec\<rparr>) (b, x, Some c, us)"
      using rep g by (simp add: represents_def)
    from Cons.IH [OF e0 Cons.prems(2) dr ok(2) r]
    show ?thesis
      by (simp add: NewFile_loop_at [OF at] Let_def data idx p source_reader_simps tags_distinct)
  next
    case unknown
    with Cons.prems(4) have ok: "chunks_ok recs_of x cs" by simp
    from NewUnknownSection_chunk [OF at] obtain sec where
      p: "NewUnknownSection (chunk_header c) (source_reader bs (off + 8))
            = Inr (sec, source_reader bs e)"
      and g: "good_unknown sec c"
      by (auto simp: e_def good_unknown_def)
    have r: "represents recs_of (bnk\<lparr>Others := Others bnk @ [sec]\<rparr>) (b, x, d, us @ [c])"
      using rep g by (simp add: represents_def list_all2_appendI)
    from Cons.IH [OF e0 Cons.prems(2) dr ok r]
    show ?thesis
      by (simp add: NewFile_loop_at [OF at] Let_def unknown p source_reader_simps)
  qed
qed

lemma File_WriteTo_represents:
  assumes "represents recs_of bnk (Some b, Some x, Some d, us)"
  shows "\<exists>bnk'. File_WriteTo bnk
           = Inr ((encode_chunk b @ encode_chunk x @ encode_chunk d @ concat (map encode_chunk us),
                   int (length (encode_chunk b @ encode_chunk x @ encode_chunk d
                                  @ concat (map encode_chunk us))),
                   None), bnk')"
proof -
  from assms obtain sb sx sd where
    s: "BankHeaderSection bnk = Some sb" "IndexSection bnk = Some sx" "DataSection bnk = Some sd"
    and g: "good_bkhd sb b" "good_didx recs_of sx x" "good_data sd d"
    and u: "list_all2 good_unknown (Others bnk) us"
    by (auto simp: represents_def option_rel_Some2)
  obtain sb' where wb: "BankHeaderSection_WriteTo sb
      = ((encode_chunk b, int (length (encode_chunk b)), None), sb')"
    using g(1) by (cases "BankHeaderSection_WriteTo sb") (auto simp: good_bkhd_def)
  have wx: "DataIndexSection_WriteTo sx = (encode_chunk x, int (length (encode_chunk x)), None)"
    using g(2) by (simp add: good_didx_def)
  obtain sd' where wd: "DataSection_WriteTo sd
      = Inr ((encode_chunk d, int (length (encode_chunk d)), None), sd')"
    using g(3) by (auto simp: good_data_def)
  have ne: "list_all (\<lambda>u. copy_err (Reader_u u) = None) (Others bnk)"
    using u by (induction rule: list_all2_induct) (simp_all add: good_unknown_def)
  have "map unknown_out (Others bnk) = map encode_chunk us"
    using u by (induction rule: list_all2_induct) (simp_all add: good_unknown_def)
  then have out: "concat (map unknown_out (Others bnk)) = concat (map encode_chunk us)"
    by simp
  obtain os' where wo: "File_WriteTo_others (Others bnk)
      = ((concat (map encode_chunk us), int (length (concat (map encode_chunk us))), None), os')"
    using File_WriteTo_others_eq [OF ne] out
    by (cases "File_WriteTo_others (Others bnk)") auto
  show ?thesis
    by (simp add: File_WriteTo_def s wb wx wd wo Let_def)
qed

definition last_or :: "'a option \<Rightarrow> 'a list \<Rightarrow> 'a option" where
  "last_or z xs = (if xs = [] then z else Some (last xs))"

definition is_unknown :: "chunk \<Rightarrow> bool" where
  "is_unknown c \<longleftrightarrow>
     tag c \<noteq> bkhdHeaderId \<and> tag c \<noteq> didxHeaderId \<and> tag c \<noteq> dataHeaderId"

lemma absorb_eq:
  "absorb cs (b, x, d, us) =
     (last_or b (filter (\<lambda>c. tag c = bkhdHeaderId) cs),
      last_or x (filter (\<lambda>c. tag c = didxHeaderId) cs),
      last_or d (filter (\<lambda>c. tag c = dataHeaderId) cs),
      us @ filter is_unknown cs)"
proof (induction cs arbitrary: b x d us)
  case Nil
  then show ?case by (simp add: last_or_def)
next
  case (Cons c cs)
  show ?case
    by (simp add: Cons.IH last_or_def is_unknown_def tags_distinct tags_distinct [symmetric])
qed

lemma chunks_ok_single_index:
  assumes "\<forall>c\<in>set cs. length (payload c) < 2 ^ 32"
    and "\<forall>c\<in>set cs. tag c = bkhdHeaderId \<longrightarrow> 8 \<le> length (payload c)"
    and "\<forall>c\<in>set cs. tag c = didxHeaderId \<longrightarrow>
           payload c = concat (map encode_WemDescriptor recs) \<and> distinct (map WemId recs)"
    and "\<forall>c\<in>set cs. tag c = dataHeaderId \<longrightarrow> tiles recs (length (payload c))"
    and "x0 \<noteq> None
         \<or> (\<exists>c\<in>set (takeWhile (\<lambda>c. tag c \<noteq> dataHeaderId) cs). tag c = didxHeaderId)
         \<or> (\<forall>c\<in>set cs. tag c \<noteq> dataHeaderId)"
  shows "chunks_ok (\<lambda>_. recs) x0 cs"
  using assms
proof (induction cs arbitrary: x0)
  case Nil
  then show ?case by simp
next
  case (Cons c cs)
  consider (bkhd) "tag c = bkhdHeaderId"
    | (didx) "tag c \<noteq> bkhdHeaderId" "tag c = didxHeaderId"
    | (data) "tag c \<noteq> bkhdHeaderId" "tag c \<noteq> didxHeaderId" "tag c = dataHeaderId"
    | (unknown) "tag c \<noteq> bkhdHeaderId" "tag c \<noteq> didxHeaderId" "tag c \<noteq> dataHeaderId"
    by blast
  then show ?case
  proof cases
    case bkhd
    then have ne: "tag c \<noteq> dataHeaderId" "tag c \<noteq> didxHeaderId"
      using tags_distinct by simp_all
    have "chunks_ok (\<lambda>_. recs) x0 cs"
      by (rule Cons.IH) (use Cons.prems ne in auto)
    with Cons.prems bkhd show ?thesis by simp
  next
    case didx
    have "chunks_ok (\<lambda>_. recs) (Some c) cs"
      by (rule Cons.IH) (use Cons.prems in auto)
    with Cons.prems didx show ?thesis by simp
  next
    case data
    with Cons.prems(5) obtain xc where x0: "x0 = Some xc" by auto
    have "chunks_ok (\<lambda>_. recs) x0 cs"
      by (rule Cons.IH) (use Cons.prems x0 in auto)
    with Cons.prems data x0 show ?thesis by simp
  next
    case unknown
    have "chunks_ok (\<lambda>_. recs) x0 cs"
      by (rule Cons.IH) (use Cons.prems unknown in auto)
    with Cons.prems unknown show ?thesis by simp
  qed
qed

lemma represents_new_File: "represents recs_of new_File (None, None, None, [])"
  by (simp add: represents_def new_File_def)

lemma NewFile_loop_start:
  "NewFile r = (case NewFile_loop r 0 new_File of
                  Inl err \<Rightarrow> Inl err
                | Inr bnk \<Rightarrow> if DataSection bnk = None then Inl (Error ErrNoWems) else Inr bnk)"
  "NewFile2 r = NewFile_loop r 0 new_File"
  by (simp_all add: NewFile_def NewFile2_def NewSectionReader_def Let_def)

text \<open>
  Parsing a source and writing the \<^verbatim>\<open>File\<close> back: the results of \<^verbatim>\<open>File.WriteTo\<close> on what
  \<^verbatim>\<open>NewFile\<close> returns.
\<close>

definition reserialize :: "byte list \<Rightarrow> failure + (byte list \<times> int \<times> error option)" where
  "reserialize r =
     (case NewFile r of
        Inl err \<Rightarrow> Inl err
      | Inr bnk \<Rightarrow>
          (case File_WriteTo bnk of
             Inl p \<Rightarrow> Inl (Panic p)
           | Inr (res, bnk') \<Rightarrow> Inr res))"

lemma chunks_ok_no_data:
  assumes "\<forall>c\<in>set cs. length (payload c) < 2 ^ 32 \<and> tag c \<noteq> dataHeaderId
             \<and> (tag c = bkhdHeaderId \<longrightarrow> 8 \<le> length (payload c))
             \<and> (tag c = didxHeaderId \<longrightarrow>
                  payload c = concat (map encode_WemDescriptor (recs_of c))
                  \<and> distinct (map WemId (recs_of c)))"
  shows "chunks_ok recs_of x0 cs"
  using assms by (induction cs arbitrary: x0) simp_all

lemma NewFile_chunks:
  assumes "int (length (concat (map encode_chunk cs))) \<le> maxint64"
    and "chunks_ok recs_of None cs"
  shows "\<exists>bnk. NewFile_loop (concat (map encode_chunk cs)) 0 new_File = Inr bnk
           \<and> represents recs_of bnk (absorb cs (None, None, None, []))"
  by (rule NewFile_loop_chunks [OF _ assms(1) _ assms(2) represents_new_File]) simp_all

text \<open>
  Claim C1 (round trip), as amended. The source is a sequence of chunks \<open>cs\<close> with payloads
  shorter than \<open>2 ^ 32\<close> bytes, holding exactly one BKHD chunk \<open>b\<close>, of at least 8 payload
  bytes, exactly one DIDX chunk \<open>x\<close>, made of the records \<open>recs\<close> with distinct ids, and
  exactly one DATA chunk \<open>d\<close>, which comes after \<open>x\<close> and which \<open>recs\<close> tile. Then parsing
  succeeds, and writing the \<^verbatim>\<open>File\<close> back yields, without error, the BKHD chunk, the DIDX
  chunk, the DATA chunk and then the other chunks in their order in the source, each
  byte for byte as in the source.
\<close>

theorem round_trip:
  assumes "int (length (concat (map encode_chunk cs))) \<le> maxint64"
    and "\<forall>c\<in>set cs. length (payload c) < 2 ^ 32"
    and "filter (\<lambda>c. tag c = bkhdHeaderId) cs = [b]" and "8 \<le> length (payload b)"
    and "filter (\<lambda>c. tag c = didxHeaderId) cs = [x]"
    and "payload x = concat (map encode_WemDescriptor recs)" and "distinct (map WemId recs)"
    and "filter (\<lambda>c. tag c = dataHeaderId) cs = [d]" and "tiles recs (length (payload d))"
    and "x \<in> set (takeWhile (\<lambda>c. tag c \<noteq> dataHeaderId) cs)"
  shows "reserialize (concat (map encode_chunk cs))
           = Inr (encode_chunk b @ encode_chunk x @ encode_chunk d
                    @ concat (map encode_chunk (filter is_unknown cs)),
                  int (length (encode_chunk b @ encode_chunk x @ encode_chunk d
                                 @ concat (map encode_chunk (filter is_unknown cs)))),
                  None)"
proof -
  have only_b: "c = b" if "c \<in> set cs" "tag c = bkhdHeaderId" for c
  proof -
    from that have "c \<in> set (filter (\<lambda>c. tag c = bkhdHeaderId) cs)" by simp
    then show ?thesis by (simp add: assms(3))
  qed
  have only_x: "c = x" if "c \<in> set cs" "tag c = didxHeaderId" for c
  proof -
    from that have "c \<in> set (filter (\<lambda>c. tag c = didxHeaderId) cs)" by simp
    then show ?thesis by (simp add: assms(5))
  qed
  have only_d: "c = d" if "c \<in> set cs" "tag c = dataHeaderId" for c
  proof -
    from that have "c \<in> set (filter (\<lambda>c. tag c = dataHeaderId) cs)" by simp
    then show ?thesis by (simp add: assms(8))
  qed
  have "x \<in> set (filter (\<lambda>c. tag c = didxHeaderId) cs)" by (simp add: assms(5))
  then have tx: "tag x = didxHeaderId" by simp
  have ok: "chunks_ok (\<lambda>_. recs) None cs"
  proof (rule chunks_ok_single_index)
    show "\<forall>c\<in>set cs. length (payload c) < 2 ^ 32" by (rule assms(2))
    show "\<forall>c\<in>set cs. tag c = bkhdHeaderId \<longrightarrow> 8 \<le> length (payload c)"
      using only_b assms(4) by blast
    show "\<forall>c\<in>set cs. tag c = didxHeaderId \<longrightarrow>
           payload c = concat (map encode_WemDescriptor recs) \<and> distinct (map WemId recs)"
      using only_x assms(6,7) by blast
    show "\<forall>c\<in>set cs. tag c = dataHeaderId \<longrightarrow> tiles recs (length (payload c))"
      using only_d assms(9) by blast
    show "None \<noteq> (None :: chunk option)
         \<or> (\<exists>c\<in>set (takeWhile (\<lambda>c. tag c \<noteq> dataHeaderId) cs). tag c = didxHeaderId)
         \<or> (\<forall>c\<in>set cs. tag c \<noteq> dataHeaderId)"
      using assms(10) tx by blast
  qed
  from NewFile_chunks [OF assms(1) ok] obtain bnk where
    l: "NewFile_loop (concat (map encode_chunk cs)) 0 new_File = Inr bnk"
    and r: "represents (\<lambda>_. recs) bnk (Some b, Some x, Some d, filter is_unknown cs)"
    by (auto simp: absorb_eq last_or_def assms(3,5,8))
  from r have "DataSection bnk \<noteq> None"
    by (auto simp: represents_def option_rel_Some2)
  with l have nf: "NewFile (concat (map encode_chunk cs)) = Inr bnk"
    by (simp add: NewFile_loop_start)
  from File_WriteTo_represents [OF r] nf show ?thesis
    by (auto simp: reserialize_def)
qed

lemma copied_explicit:
  assumes "0 \<le> off" and "lim \<le> M"
  shows "copied \<lparr>sr_r = SectionReaderAt (BytesReaderAt bs) 0 M, sr_base = base, sr_off = off,
                 sr_limit = lim\<rparr> = take (nat (lim - off)) (drop (nat off) bs)"
    and "copy_err \<lparr>sr_r = SectionReaderAt (BytesReaderAt bs) 0 M, sr_base = base, sr_off = off,
                   sr_limit = lim\<rparr> = None"
proof -
  let ?s = "\<lparr>sr_r = SectionReaderAt (BytesReaderAt bs) 0 M, sr_base = base, sr_off = off,
             sr_limit = lim\<rparr>"
  have rb: "reads_bytes ?s bs" using assms by (simp add: reads_bytes_def)
  show "copied ?s = take (nat (lim - off)) (drop (nat off) bs)"
    using copied_reads_bytes(1) [OF rb] by simp
  show "copy_err ?s = None" by (rule copied_reads_bytes(2) [OF rb])
qed

lemma File_WriteTo_eq:
  assumes "BankHeaderSection bnk = Some sb" and "copy_err (RemainingReader_b sb) = None"
    and "IndexSection bnk = Some sx" and "DataSection bnk = Some sd"
    and "list_all wem_copies (Wems sd)"
    and "list_all (\<lambda>u. copy_err (Reader_u u) = None) (Others bnk)"
    and "out = (encode_SectionHeader (Header_b sb) @ encode_BankDescriptor (Descriptor_b sb)
                  @ copied (RemainingReader_b sb))
               @ (encode_SectionHeader (Header_i sx)
                  @ concat (map (\<lambda>k. encode_WemDescriptor (lookup (DescriptorMap sx) k)) (WemIds sx)))
               @ (encode_SectionHeader (Header_d sd) @ concat (map wem_out (Wems sd)))
               @ concat (map unknown_out (Others bnk))"
  shows "\<exists>bnk'. File_WriteTo bnk = Inr ((out, int (length out), None), bnk')"
proof -
  obtain sb' where wb: "BankHeaderSection_WriteTo sb
      = ((encode_SectionHeader (Header_b sb) @ encode_BankDescriptor (Descriptor_b sb)
            @ copied (RemainingReader_b sb),
          16 + int (length (copied (RemainingReader_b sb))), None), sb')"
    using BankHeaderSection_WriteTo_eq [OF assms(2)]
    by (cases "BankHeaderSection_WriteTo sb") auto
  obtain sd' where wd: "DataSection_WriteTo sd
      = Inr ((encode_SectionHeader (Header_d sd) @ concat (map wem_out (Wems sd)),
              8 + int (length (concat (map wem_out (Wems sd)))), None), sd')"
    using DataSection_WriteTo_eq [OF assms(5)] by blast
  obtain os' where wo: "File_WriteTo_others (Others bnk)
      = ((concat (map unknown_out (Others bnk)),
          int (length (concat (map unknown_out (Others bnk)))), None), os')"
    using File_WriteTo_others_eq [OF assms(6)]
    by (cases "File_WriteTo_others (Others bnk)") auto
  have l: "length (concat (map (\<lambda>k. encode_WemDescriptor (lookup (DescriptorMap sx) k)) ids))
      = 12 * length ids" for ids
    by (induction ids) simp_all
  show ?thesis
    unfolding assms(7)
    by (simp add: File_WriteTo_def assms(1,3,4) wb DataIndexSection_WriteTo_eq wd wo Let_def l)
qed

definition interleaved_chunks :: "chunk list" where
  "interleaved_chunks =
     [\<lparr>tag = bkhdHeaderId, payload = [1, 0, 0, 0, 2, 0, 0, 0, 0x10, 0x20]\<rparr>,
      \<lparr>tag = (0x48, 0x49, 0x52, 0x43), payload = [7, 9]\<rparr>,
      \<lparr>tag = didxHeaderId, payload = [1, 0, 0, 0, 0, 0, 0, 0, 4, 0, 0, 0]\<rparr>,
      \<lparr>tag = dataHeaderId, payload = [0xAA, 0xAA, 0xAA, 0xAA, 0, 0, 0, 0]\<rparr>]"

definition interleaved :: "byte list" where
  "interleaved =
     [0x42, 0x4B, 0x48, 0x44, 10, 0, 0, 0,  1, 0, 0, 0, 2, 0, 0, 0, 0x10, 0x20,
      0x48, 0x49, 0x52, 0x43, 2, 0, 0, 0,   7, 9,
      0x44, 0x49, 0x44, 0x58, 12, 0, 0, 0,  1, 0, 0, 0, 0, 0, 0, 0, 4, 0, 0, 0,
      0x44, 0x41, 0x54, 0x41, 8, 0, 0, 0,   0xAA, 0xAA, 0xAA, 0xAA, 0, 0, 0, 0]"

definition interleaved_written :: "byte list" where
  "interleaved_written =
     [0x42, 0x4B, 0x48, 0x44, 10, 0, 0, 0,  1, 0, 0, 0, 2, 0, 0, 0, 0x10, 0x20,
      0x44, 0x49, 0x44, 0x58, 12, 0, 0, 0,  1, 0, 0, 0, 0, 0, 0, 0, 4, 0, 0, 0,
      0x44, 0x41, 0x54, 0x41, 8, 0, 0, 0,   0xAA, 0xAA, 0xAA, 0xAA, 0, 0, 0, 0,
      0x48, 0x49, 0x52, 0x43, 2, 0, 0, 0,   7, 9]"

lemmas encode_eval =
  encode_chunk_def chunk_header_def encode_SectionHeader_def encode_WemDescriptor_def
  encode_BankDescriptor_def LittleEndian_PutUint32_def bkhdHeaderId_def didxHeaderId_def
  dataHeaderId_def

theorem round_trip_witness:
  "concat (map encode_chunk interleaved_chunks) = interleaved
   \<and> int (length interleaved) \<le> maxint64
   \<and> filter (\<lambda>c. tag c = bkhdHeaderId) interleaved_chunks = [interleaved_chunks ! 0]
   \<and> 8 \<le> length (payload (interleaved_chunks ! 0))
   \<and> filter (\<lambda>c. tag c = didxHeaderId) interleaved_chunks = [interleaved_chunks ! 2]
   \<and> payload (interleaved_chunks ! 2)
       = concat (map encode_WemDescriptor [\<lparr>WemId = 1, Offset = 0, Length_w = 4\<rparr>])
   \<and> filter (\<lambda>c. tag c = dataHeaderId) interleaved_chunks = [interleaved_chunks ! 3]
   \<and> tiles [\<lparr>WemId = 1, Offset = 0, Length_w = 4\<rparr>] (length (payload (interleaved_chunks ! 3)))
   \<and> interleaved_chunks ! 2
       \<in> set (takeWhile (\<lambda>c. tag c \<noteq> dataHeaderId) interleaved_chunks)
   \<and> reserialize interleaved = Inr (interleaved_written, 64, None)"
proof -
  have c: "concat (map encode_chunk interleaved_chunks) = interleaved"
    by (simp add: interleaved_chunks_def interleaved_def encode_eval)
  have h1: "int (length (concat (map encode_chunk interleaved_chunks))) \<le> maxint64"
    unfolding c by (simp add: interleaved_def maxint64_def)
  have h2: "\<forall>c\<in>set interleaved_chunks. length (payload c) < 2 ^ 32"
    by (simp add: interleaved_chunks_def)
  have h3: "filter (\<lambda>c. tag c = bkhdHeaderId) interleaved_chunks = [interleaved_chunks ! 0]"
    and h4: "8 \<le> length (payload (interleaved_chunks ! 0))"
    and h5: "filter (\<lambda>c. tag c = didxHeaderId) interleaved_chunks = [interleaved_chunks ! 2]"
    and h6: "payload (interleaved_chunks ! 2)
       = concat (map encode_WemDescriptor [\<lparr>WemId = 1, Offset = 0, Length_w = 4\<rparr>])"
    and h8: "filter (\<lambda>c. tag c = dataHeaderId) interleaved_chunks = [interleaved_chunks ! 3]"
    and h9: "tiles [\<lparr>WemId = 1, Offset = 0, Length_w = 4\<rparr>]
               (length (payload (interleaved_chunks ! 3)))"
    and h10: "interleaved_chunks ! 2
       \<in> set (takeWhile (\<lambda>c. tag c \<noteq> dataHeaderId) interleaved_chunks)"
    by (simp_all add: interleaved_chunks_def encode_eval tiles_def)
  have u: "filter is_unknown interleaved_chunks = [interleaved_chunks ! 1]"
    by (simp add: interleaved_chunks_def is_unknown_def encode_eval)
  have w: "encode_chunk (interleaved_chunks ! 0) @ encode_chunk (interleaved_chunks ! 2)
      @ encode_chunk (interleaved_chunks ! 3)
      @ concat (map encode_chunk [interleaved_chunks ! 1]) = interleaved_written"
    by (simp add: interleaved_chunks_def interleaved_written_def encode_eval)
  have l: "length interleaved_written = 64" by (simp add: interleaved_written_def)
  from round_trip [OF h1 h2 h3 h4 h5 h6 _ h8 h9 h10]
  have "reserialize interleaved = Inr (interleaved_written, 64, None)"
    unfolding c u w l by simp
  with c h1 h3 h4 h5 h6 h8 h9 h10 show ?thesis by simp
qed

text \<open>
  What \<^verbatim>\<open>File.WriteTo\<close> writes for the bank \<open>first_offset\<close>: the DATA section keeps its
  declared length of 8 but only the 4 bytes of the wem follow it.
\<close>

definition first_offset_written :: "byte list" where
  "first_offset_written =
     [0x42, 0x4B, 0x48, 0x44, 8, 0, 0, 0,   1, 0, 0, 0, 2, 0, 0, 0,
      0x44, 0x49, 0x44, 0x58, 12, 0, 0, 0,  1, 0, 0, 0, 4, 0, 0, 0, 4, 0, 0, 0,
      0x44, 0x41, 0x54, 0x41, 8, 0, 0, 0,   0xAA, 0xAA, 0xAA, 0xAA]"

lemma first_offset_File_written:
  "\<exists>bnk'. File_WriteTo first_offset_File = Inr ((first_offset_written, 48, None), bnk')"
proof -
  have m: "(52 :: int) \<le> maxint64" "(16 :: int) \<le> maxint64" by (simp_all add: maxint64_def)
  have "\<exists>bnk'. File_WriteTo first_offset_File
      = Inr ((first_offset_written, int (length first_offset_written), None), bnk')"
    by (rule File_WriteTo_eq [where sb = "the (BankHeaderSection first_offset_File)"
          and sx = "the (IndexSection first_offset_File)" and sd = first_offset_data])
       (simp_all add: first_offset_File_def first_offset_data_def wem_copies_def wem_out_def
          copied_explicit m lookup_def first_offset_written_def first_offset_def encode_eval)
  then show ?thesis by (simp add: first_offset_written_def)
qed

text \<open>
  Claim C1, counterexample to the claim as first stated. The bank \<open>first_offset\<close> parses,
  but its only wem starts 4 bytes into the DATA section: the parser keeps no reader for
  the bytes before the first wem, and the DATA chunk written back is not the one read.
\<close>

theorem round_trip_counterexample:
  "NewFile first_offset = Inr first_offset_File
   \<and> reserialize first_offset = Inr (first_offset_written, 48, None)
   \<and> drop 36 first_offset
       = [0x44, 0x41, 0x54, 0x41, 8, 0, 0, 0, 0x11, 0x22, 0x33, 0x44, 0xAA, 0xAA, 0xAA, 0xAA]
   \<and> drop 36 first_offset_written
       = [0x44, 0x41, 0x54, 0x41, 8, 0, 0, 0, 0xAA, 0xAA, 0xAA, 0xAA]"
proof -
  from first_offset_File_written obtain bnk' where
    "File_WriteTo first_offset_File = Inr ((first_offset_written, 48, None), bnk')" ..
  then have r: "reserialize first_offset = Inr (first_offset_written, 48, None)"
    by (simp add: reserialize_def NewFile_first_offset)
  have d: "drop 36 first_offset
       = [0x44, 0x41, 0x54, 0x41, 8, 0, 0, 0, 0x11, 0x22, 0x33, 0x44, 0xAA, 0xAA, 0xAA, 0xAA]"
    "drop 36 first_offset_written
       = [0x44, 0x41, 0x54, 0x41, 8, 0, 0, 0, 0xAA, 0xAA, 0xAA, 0xAA]"
    by (simp_all add: first_offset_def first_offset_written_def)
  from NewFile_first_offset r d show ?thesis by (intro conjI)
qed

text \<open>
  A source that holds only a BKHD chunk, and the \<^verbatim>\<open>File\<close> the parse loop has built when it
  reaches the end of it.
\<close>

definition bkhd_only_chunks :: "chunk list" where
  "bkhd_only_chunks = [\<lparr>tag = bkhdHeaderId, payload = [1, 0, 0, 0, 2, 0, 0, 0]\<rparr>]"

definition bkhd_only :: "byte list" where
  "bkhd_only = [0x42, 0x4B, 0x48, 0x44, 8, 0, 0, 0,   1, 0, 0, 0, 2, 0, 0, 0]"

definition bkhd_only_File :: File where
  "bkhd_only_File =
     \<lparr>closer = None,
      BankHeaderSection = Some
        \<lparr>Header_b = \<lparr>Identifier = bkhdHeaderId, Length = 8\<rparr>,
         Descriptor_b = \<lparr>Version = 1, BankId = 2\<rparr>,
         RemainingReader_b =
           \<lparr>sr_r = SectionReaderAt (BytesReaderAt bkhd_only) 0 maxint64,
            sr_base = 16, sr_off = 16, sr_limit = 16\<rparr>\<rparr>,
      IndexSection = None, DataSection = None, Others = []\<rparr>"

lemma NewFile_loop_bkhd_only: "NewFile_loop bkhd_only 0 new_File = Inr bkhd_only_File"
proof -
  have "NewFile2 bkhd_only = Inr bkhd_only_File"
    unfolding bkhd_only_File_def bkhd_only_def by (simp add: parse_eval)
  then show ?thesis by (simp add: NewFile_loop_start)
qed

text \<open>
  Claim C7 (missing data chunk), as amended. \<^verbatim>\<open>file.go\<close> holds two definitions of
  \<^verbatim>\<open>NewFile\<close>. With the first one (\<open>NewFile\<close>, lines 36 to 83), whenever the parse loop
  reaches the end of the source with no DATA section set, the result is the error
  \<^verbatim>\<open>There are no wems stored within this SoundBank.\<close> (\<open>ErrNoWems\<close>), and no \<^verbatim>\<open>File\<close>
  without a DATA section is ever returned. In particular this is the result on every
  source that is a sequence of chunks none of which is tagged DATA, the BKHD chunks
  having at least 8 payload bytes and the DIDX chunks being whole records with distinct
  ids, so that no chunk fails to parse. The second definition (\<open>NewFile2\<close>, lines 295 to
  338) has no such check: on the same sources it returns the \<^verbatim>\<open>File\<close> with a nil DATA
  section.
\<close>

theorem missing_data_chunk:
  "(NewFile_loop r 0 new_File = Inr bnk \<and> DataSection bnk = None
      \<longrightarrow> NewFile r = Inl (Error ErrNoWems) \<and> NewFile2 r = Inr bnk)
   \<and> (NewFile r = Inr f \<longrightarrow> DataSection f \<noteq> None)
   \<and> (int (length (concat (map encode_chunk cs))) \<le> maxint64
      \<and> (\<forall>c\<in>set cs. length (payload c) < 2 ^ 32 \<and> tag c \<noteq> dataHeaderId
             \<and> (tag c = bkhdHeaderId \<longrightarrow> 8 \<le> length (payload c))
             \<and> (tag c = didxHeaderId \<longrightarrow>
                  payload c = concat (map encode_WemDescriptor (recs_of c))
                  \<and> distinct (map WemId (recs_of c))))
      \<longrightarrow> NewFile (concat (map encode_chunk cs)) = Inl (Error ErrNoWems)
          \<and> (\<exists>bnk'. NewFile2 (concat (map encode_chunk cs)) = Inr bnk'
                 \<and> DataSection bnk' = None))"
proof (intro conjI impI)
  assume "NewFile_loop r 0 new_File = Inr bnk \<and> DataSection bnk = None"
  then show "NewFile r = Inl (Error ErrNoWems)" "NewFile2 r = Inr bnk"
    by (simp_all add: NewFile_loop_start)
next
  assume "NewFile r = Inr f"
  then show "DataSection f \<noteq> None"
    by (auto simp: NewFile_loop_start split: sum.splits if_splits)
next
  assume a: "int (length (concat (map encode_chunk cs))) \<le> maxint64
      \<and> (\<forall>c\<in>set cs. length (payload c) < 2 ^ 32 \<and> tag c \<noteq> dataHeaderId
             \<and> (tag c = bkhdHeaderId \<longrightarrow> 8 \<le> length (payload c))
             \<and> (tag c = didxHeaderId \<longrightarrow>
                  payload c = concat (map encode_WemDescriptor (recs_of c))
                  \<and> distinct (map WemId (recs_of c))))"
  then have ok: "chunks_ok recs_of None cs" by (intro chunks_ok_no_data) simp
  have nd: "filter (\<lambda>c. tag c = dataHeaderId) cs = []"
    using a by (simp add: filter_empty_conv)
  from a NewFile_chunks [OF _ ok] obtain bnk' where
    l: "NewFile_loop (concat (map encode_chunk cs)) 0 new_File = Inr bnk'"
    and r: "represents recs_of bnk' (absorb cs (None, None, None, []))"
    by blast
  from r have d: "DataSection bnk' = None"
    by (simp add: absorb_eq nd last_or_def represents_def)
  from l d show "NewFile (concat (map encode_chunk cs)) = Inl (Error ErrNoWems)"
    by (simp add: NewFile_loop_start)
  from l d show "\<exists>bnk'. NewFile2 (concat (map encode_chunk cs)) = Inr bnk'
                 \<and> DataSection bnk' = None"
    by (simp add: NewFile_loop_start)
qed

theorem missing_data_chunk_witness:
  "concat (map encode_chunk bkhd_only_chunks) = bkhd_only
   \<and> NewFile_loop bkhd_only 0 new_File = Inr bkhd_only_File
   \<and> DataSection bkhd_only_File = None
   \<and> NewFile bkhd_only = Inl (Error ErrNoWems)
   \<and> NewFile2 bkhd_only = Inr bkhd_only_File"
proof -
  have c: "concat (map encode_chunk bkhd_only_chunks) = bkhd_only"
    by (simp add: bkhd_only_chunks_def bkhd_only_def encode_eval)
  have d: "DataSection bkhd_only_File = None" by (simp add: bkhd_only_File_def)
  have h: "int (length (concat (map encode_chunk bkhd_only_chunks))) \<le> maxint64
      \<and> (\<forall>c\<in>set bkhd_only_chunks. length (payload c) < 2 ^ 32 \<and> tag c \<noteq> dataHeaderId
             \<and> (tag c = bkhdHeaderId \<longrightarrow> 8 \<le> length (payload c))
             \<and> (tag c = didxHeaderId \<longrightarrow>
                  payload c = concat (map encode_WemDescriptor ((\<lambda>_. []) c))
                  \<and> distinct (map WemId ((\<lambda>_. []) c))))"
    unfolding c
    by (simp add: bkhd_only_chunks_def bkhd_only_def maxint64_def bkhdHeaderId_def
        didxHeaderId_def dataHeaderId_def)
  from missing_data_chunk [of bkhd_only bkhd_only_File bkhd_only_File bkhd_only_chunks "\<lambda>_. []"]
    NewFile_loop_bkhd_only d h
  have "NewFile bkhd_only = Inl (Error ErrNoWems)" "NewFile2 bkhd_only = Inr bkhd_only_File"
    unfolding c by blast+
  with c d NewFile_loop_bkhd_only show ?thesis by (intro conjI)
qed

text \<open>
  Claim C7, counterexample to the claim as first stated: the definition of \<^verbatim>\<open>NewFile\<close> at
  lines 295 to 338 of \<^verbatim>\<open>file.go\<close> returns a \<^verbatim>\<open>File\<close> for the source that holds only a BKHD
  chunk.
\<close>

theorem missing_data_chunk_counterexample:
  "NewFile2 bkhd_only = Inr bkhd_only_File \<and> DataSection bkhd_only_File = None"
  unfolding bkhd_only_File_def bkhd_only_def by (simp add: parse_eval)

text \<open>
  No DIDX chunk comes after a DATA chunk; \<open>seen\<close> says that a DATA chunk was read already.
\<close>

fun index_first :: "bool \<Rightarrow> chunk list \<Rightarrow> bool" where
  "index_first seen [] = True"
| "index_first seen (c # cs) =
     (if tag c = didxHeaderId then \<not> seen \<and> index_first seen cs
      else index_first (seen \<or> tag c = dataHeaderId) cs)"

text \<open>
  The sections of a \<^verbatim>\<open>File\<close> agree: its index is consistent, and its DATA section, if
  any, was built from that index.
\<close>

definition sections_agree :: "File \<Rightarrow> bool" where
  "sections_agree bnk \<longleftrightarrow>
     (case IndexSection bnk of
        None \<Rightarrow> DataSection bnk = None
      | Some idx \<Rightarrow>
          index_consistent idx
          \<and> (case DataSection bnk of None \<Rightarrow> True | Some data \<Rightarrow> indexed_by idx data))"

lemma NewFile_loop_chunks_indexed:
  assumes "0 \<le> off" and "int (length bs) \<le> maxint64"
    and "drop (nat off) bs = concat (map encode_chunk cs)"
    and "chunks_ok recs_of x cs" and "represents recs_of bnk (b, x, d, us)"
    and "index_first (DataSection bnk \<noteq> None) cs" and "sections_agree bnk"
    and "NewFile_loop bs off bnk = Inr bnk'"
  shows "sections_agree bnk'"
  using assms
proof (induction cs arbitrary: off bnk b x d us)
  case Nil
  then have "int (length bs) \<le> off" by simp
  with Nil show ?case by (simp add: NewFile_loop_EOF)
next
  case (Cons c cs)
  define e where "e = off + 8 + int (length (payload c))"
  from Cons.prems(4) have n32: "length (payload c) < 2 ^ 32" by simp
  have at: "chunk_at bs off c"
    by (rule chunk_atI [OF Cons.prems(1,2) n32, of "concat (map encode_chunk cs)"])
       (use Cons.prems(3) in simp)
  have e0: "0 \<le> e" using Cons.prems(1) by (simp add: e_def)
  have "drop (8 + length (payload c)) (drop (nat off) bs) = concat (map encode_chunk cs)"
    using Cons.prems(3) by simp
  moreover have "nat e = nat off + (8 + length (payload c))"
    using Cons.prems(1) by (simp add: e_def nat_add_distrib)
  ultimately have dr: "drop (nat e) bs = concat (map encode_chunk cs)"
    by (simp add: add.commute)
  note rep = Cons.prems(5) [unfolded represents_def, simplified]
  note res = Cons.prems(8) [unfolded NewFile_loop_at [OF at] Let_def]
  consider (bkhd) "tag c = bkhdHeaderId"
    | (didx) "tag c \<noteq> bkhdHeaderId" "tag c = didxHeaderId"
    | (data) "tag c \<noteq> bkhdHeaderId" "tag c \<noteq> didxHeaderId" "tag c = dataHeaderId"
    | (unknown) "tag c \<noteq> bkhdHeaderId" "tag c \<noteq> didxHeaderId" "tag c \<noteq> dataHeaderId"
    by blast
  then show ?case
  proof cases
    case bkhd
    then have ne: "tag c \<noteq> didxHeaderId" "tag c \<noteq> dataHeaderId"
      using tags_distinct by simp_all
    from bkhd Cons.prems(4) have ok: "8 \<le> length (payload c)" "chunks_ok recs_of x cs"
      by simp_all
    from NewBankHeaderSection_chunk [OF at bkhd ok(1)] obtain sec where
      p: "NewBankHeaderSection (chunk_header c) (source_reader bs (off + 8))
            = Inr (sec, source_reader bs e)"
      and g: "good_bkhd sec c"
      by (auto simp: e_def good_bkhd_def)
    let ?bnk = "bnk\<lparr>BankHeaderSection := Some sec\<rparr>"
    have r: "represents recs_of ?bnk (Some c, x, d, us)"
      using rep g by (simp add: represents_def)
    have f: "index_first (DataSection ?bnk \<noteq> None) cs"
      using Cons.prems(6) ne by simp
    have s: "sections_agree ?bnk"
      using Cons.prems(7) by (auto simp: sections_agree_def split: option.splits)
    have l: "NewFile_loop bs e ?bnk = Inr bnk'"
      using res by (simp add: bkhd p source_reader_simps)
    from Cons.IH [OF e0 Cons.prems(2) dr ok(2) r f s l] show ?thesis .
  next
    case didx
    with Cons.prems(4) have ok: "payload c = concat (map encode_WemDescriptor (recs_of c))"
      "distinct (map WemId (recs_of c))" "chunks_ok recs_of (Some c) cs" by simp_all
    from NewDataIndexSection_chunk [OF at didx(2) ok(1,2)] obtain sec where
      p: "NewDataIndexSection (chunk_header c) (source_reader bs (off + 8))
            = Inr (sec, source_reader bs e)"
      and g: "good_didx recs_of sec c"
      by (auto simp: e_def good_didx_def)
    let ?bnk = "bnk\<lparr>IndexSection := Some sec\<rparr>"
    have r: "represents recs_of ?bnk (b, Some c, d, us)"
      using rep g by (simp add: represents_def)
    from Cons.prems(6) didx have nd: "DataSection bnk = None"
      and f0: "index_first False cs" by auto
    have f: "index_first (DataSection ?bnk \<noteq> None) cs"
      using f0 nd by simp
    have s: "sections_agree ?bnk"
      using NewDataIndexSection_consistent [OF p] nd by (simp add: sections_agree_def)
    have l: "NewFile_loop bs e ?bnk = Inr bnk'"
      using res by (simp add: didx p source_reader_simps tags_distinct)
    from Cons.IH [OF e0 Cons.prems(2) dr ok(3) r f s l] show ?thesis .
  next
    case data
    with Cons.prems(4) obtain xc where x: "x = Some xc"
      and ok: "tiles (recs_of xc) (length (payload c))" "chunks_ok recs_of x cs"
      by (auto split: option.splits)
    from rep x obtain idx where idx: "IndexSection bnk = Some idx" "good_didx recs_of idx xc"
      by (auto simp: option_rel_Some2)
    then have io: "index_of idx (recs_of xc)" by (simp add: good_didx_def)
    from NewDataSection_chunk [OF at data(3) io ok(1)] obtain sec where
      p: "NewDataSection (chunk_header c) (source_reader bs (off + 8)) (Some idx)
            = Inr (sec, source_reader bs e)"
      and g: "good_data sec c"
      by (auto simp: e_def good_data_def)
    let ?bnk = "bnk\<lparr>DataSection := Some sec\<rparr>"
    have r: "represents recs_of ?bnk (b, x, Some c, us)"
      using rep g by (simp add: represents_def)
    have f: "index_first (DataSection ?bnk \<noteq> None) cs"
      using Cons.prems(6) data by simp
    have ic: "index_consistent idx"
      using Cons.prems(7) idx(1) by (auto simp: sections_agree_def split: option.splits)
    have s: "sections_agree ?bnk"
      using ic NewDataSection_Wems(3) [OF p] idx(1)
      by (simp add: sections_agree_def indexed_by_def)
    have l: "NewFile_loop bs e ?bnk = Inr bnk'"
      using res by (simp add: data idx(1) p source_reader_simps tags_distinct)
    from Cons.IH [OF e0 Cons.prems(2) dr ok(2) r f s l] show ?thesis .
  next
    case unknown
    with Cons.prems(4) have ok: "chunks_ok recs_of x cs" by simp
    from NewUnknownSection_chunk [OF at] obtain sec where
      p: "NewUnknownSection (chunk_header c) (source_reader bs (off + 8))
            = Inr (sec, source_reader bs e)"
      and g: "good_unknown sec c"
      by (auto simp: e_def good_unknown_def)
    let ?bnk = "bnk\<lparr>Others := Others bnk @ [sec]\<rparr>"
    have r: "represents recs_of ?bnk (b, x, d, us @ [c])"
      using rep g by (simp add: represents_def list_all2_appendI)
    have f: "index_first (DataSection ?bnk \<noteq> None) cs"
      using Cons.prems(6) unknown by simp
    have s: "sections_agree ?bnk"
      using Cons.prems(7) by (auto simp: sections_agree_def split: option.splits)
    have l: "NewFile_loop bs e ?bnk = Inr bnk'"
      using res by (simp add: unknown p source_reader_simps)
    from Cons.IH [OF e0 Cons.prems(2) dr ok r f s l] show ?thesis .
  qed
qed

lemma NewFile_chunks_indexed:
  assumes "int (length (concat (map encode_chunk cs))) \<le> maxint64"
    and "chunks_ok recs_of None cs" and "index_first False cs"
    and "NewFile_loop (concat (map encode_chunk cs)) 0 new_File = Inr bnk"
  shows "sections_agree bnk"
    and "represents recs_of bnk (absorb cs (None, None, None, []))"
proof -
  show "sections_agree bnk"
    by (rule NewFile_loop_chunks_indexed [OF _ assms(1) _ assms(2) represents_new_File _ _ assms(4)])
       (use assms(3) in \<open>simp_all add: new_File_def sections_agree_def\<close>)
  from NewFile_chunks [OF assms(1,2)] assms(4)
  show "represents recs_of bnk (absorb cs (None, None, None, []))" by simp
qed

lemma NewFile_loop_of_NewFile:
  assumes "NewFile r = Inr bnk \<or> NewFile2 r = Inr bnk"
  shows "NewFile_loop r 0 new_File = Inr bnk"
  using assms by (auto simp: NewFile_loop_start split: sum.splits if_splits)

lemma ReplaceWems_single:
  assumes "ReplaceWem bnk i rd len = (bnk', None)
           \<or> ReplaceWems bnk [\<lparr>Wem_r = rd, WemIndex = i, Length_r = len\<rparr>] = (bnk', None)"
  shows "ReplaceWem bnk i rd len = (bnk', None)"
proof -
  { assume b: "ReplaceWems bnk [\<lparr>Wem_r = rd, WemIndex = i, Length_r = len\<rparr>] = (bnk', None)"
    then have "ReplaceWems_step bnk \<lparr>Wem_r = rd, WemIndex = i, Length_r = len\<rparr> = (bnk', None)"
      by (auto split: prod.splits option.splits)
    with ReplaceWems_step_ReplaceWem [of bnk "\<lparr>Wem_r = rd, WemIndex = i, Length_r = len\<rparr>"]
    have "ReplaceWem bnk i rd len = (bnk', None)"
      by (cases "ReplaceWem bnk i rd len") auto }
  with assms show ?thesis by blast
qed

lemma index_written_after_replace:
  assumes idx: "IndexSection bnk = Some idx" and data: "DataSection bnk = Some data"
    and ib: "indexed_by idx data" and rp: "ReplaceWem bnk i rd len = (bnk', None)"
  shows "\<exists>idx'. IndexSection bnk' = Some idx' \<and> WemIds idx' = WemIds idx
           \<and> 0 \<le> i \<and> nat i < length (WemIds idx)
           \<and> fst (DataIndexSection_WriteTo idx')
               = encode_SectionHeader (Header_i idx)
                   @ concat (map encode_WemDescriptor
                       ((map (lookup (DescriptorMap idx)) (WemIds idx))
                          [nat i := (lookup (DescriptorMap idx) (WemIds idx ! nat i))
                                      \<lparr>Length_w := word_of_int len\<rparr>]))"
proof -
  from ReplaceWem_index_records [OF idx data ib rp]
  obtain idx' where i': "IndexSection bnk' = Some idx'" "Header_i idx' = Header_i idx"
    "WemIds idx' = WemIds idx" "0 \<le> i" "nat i < length (WemIds idx)"
    "map (lookup (DescriptorMap idx')) (WemIds idx')
       = (map (lookup (DescriptorMap idx)) (WemIds idx))
           [nat i := (lookup (DescriptorMap idx) (WemIds idx ! nat i))
                       \<lparr>Length_w := word_of_int len\<rparr>]"
    by blast
  have "map (\<lambda>k. encode_WemDescriptor (lookup (DescriptorMap idx') k)) (WemIds idx')
      = map encode_WemDescriptor (map (lookup (DescriptorMap idx')) (WemIds idx'))"
    by simp
  with i' show ?thesis
    by (simp add: DataIndexSection_WriteTo_eq del: map_map)
qed

lemma good_didx_header:
  assumes "good_didx recs_of idx x"
  shows "encode_SectionHeader (Header_i idx) = encode_SectionHeader (chunk_header x)"
proof -
  from assms have "encode_SectionHeader (Header_i idx)
        @ concat (map (\<lambda>k. encode_WemDescriptor (lookup (DescriptorMap idx) k)) (WemIds idx))
      = encode_SectionHeader (chunk_header x) @ payload x"
    by (simp add: good_didx_def DataIndexSection_WriteTo_eq encode_chunk_def)
  then show ?thesis by simp
qed


text \<open>
  Claim C9 (index serialization order), as amended. \<^verbatim>\<open>DataIndexSection.WriteTo\<close> writes the
  header and then, for each id of \<open>WemIds\<close> in that order, the descriptor the map holds for
  it. The index that \<^verbatim>\<open>NewDataIndexSection\<close> builds from a DIDX chunk whose records \<open>recs\<close>
  have distinct ids lists the ids in the order of the records in the source, holds each
  record under its id, and is written back as the chunk read. In a \<^verbatim>\<open>File\<close> whose DATA
  section was built from the index it holds (\<open>indexed_by\<close>), a successful \<^verbatim>\<open>ReplaceWem\<close> on
  wem \<open>i\<close> (or a batch holding that one replacement) leaves \<open>WemIds\<close> as it was, and the
  records written are the old ones in the old order, except that the record at position
  \<open>i\<close> carries the new length. Such is every \<^verbatim>\<open>File\<close> parsed (by either definition of
  \<^verbatim>\<open>NewFile\<close>) from a well-formed sequence of chunks \<open>cs\<close> in which no DIDX chunk follows a
  DATA chunk: with \<open>x\<close> the last DIDX chunk, the index written after the replacement is the
  header of \<open>x\<close> and the records of \<open>x\<close> in source order, the one at position \<open>j\<close> with the
  new length.
\<close>

theorem index_serialization_order:
  "DataIndexSection_WriteTo idx
     = (encode_SectionHeader (Header_i idx)
          @ concat (map (\<lambda>k. encode_WemDescriptor (lookup (DescriptorMap idx) k)) (WemIds idx)),
        8 + 12 * int (length (WemIds idx)), None)
   \<and> (0 \<le> off \<and> int (length bs) \<le> maxint64 \<and> drop (nat off) bs = encode_chunk c @ rest
        \<and> tag c = didxHeaderId \<and> length (payload c) < 2 ^ 32
        \<and> payload c = concat (map encode_WemDescriptor recs) \<and> distinct (map WemId recs)
      \<longrightarrow> (\<exists>idx1 r'. NewDataIndexSection (chunk_header c) (source_reader bs (off + 8))
                          = Inr (idx1, r')
              \<and> WemIds idx1 = map WemId recs
              \<and> map (lookup (DescriptorMap idx1)) (WemIds idx1) = recs
              \<and> fst (DataIndexSection_WriteTo idx1) = encode_chunk c))
   \<and> (IndexSection bnk = Some idx_f \<and> DataSection bnk = Some data_f \<and> indexed_by idx_f data_f
        \<and> (ReplaceWem bnk i rd len = (bnk', None)
            \<or> ReplaceWems bnk [\<lparr>Wem_r = rd, WemIndex = i, Length_r = len\<rparr>] = (bnk', None))
      \<longrightarrow> (\<exists>idx'. IndexSection bnk' = Some idx' \<and> WemIds idx' = WemIds idx_f
              \<and> 0 \<le> i \<and> nat i < length (WemIds idx_f)
              \<and> fst (DataIndexSection_WriteTo idx')
                  = encode_SectionHeader (Header_i idx_f)
                      @ concat (map encode_WemDescriptor
                          ((map (lookup (DescriptorMap idx_f)) (WemIds idx_f))
                             [nat i := (lookup (DescriptorMap idx_f) (WemIds idx_f ! nat i))
                                         \<lparr>Length_w := word_of_int len\<rparr>]))))
   \<and> (int (length (concat (map encode_chunk cs))) \<le> maxint64
        \<and> chunks_ok recs_of None cs \<and> index_first False cs
        \<and> (NewFile (concat (map encode_chunk cs)) = Inr fl
            \<or> NewFile2 (concat (map encode_chunk cs)) = Inr fl)
        \<and> (ReplaceWem fl j rd' len' = (fl', None)
            \<or> ReplaceWems fl [\<lparr>Wem_r = rd', WemIndex = j, Length_r = len'\<rparr>] = (fl', None))
        \<and> x = last (filter (\<lambda>c. tag c = didxHeaderId) cs)
      \<longrightarrow> (\<exists>idx3 idx3'. IndexSection fl = Some idx3 \<and> IndexSection fl' = Some idx3'
              \<and> 0 \<le> j \<and> nat j < length (recs_of x)
              \<and> WemIds idx3 = map WemId (recs_of x) \<and> WemIds idx3' = map WemId (recs_of x)
              \<and> fst (DataIndexSection_WriteTo idx3) = encode_chunk x
              \<and> fst (DataIndexSection_WriteTo idx3')
                  = encode_SectionHeader (chunk_header x)
                      @ concat (map encode_WemDescriptor
                          ((recs_of x)[nat j := (recs_of x ! nat j)
                                                  \<lparr>Length_w := word_of_int len'\<rparr>]))))"
proof (intro conjI impI)
  show "DataIndexSection_WriteTo idx
     = (encode_SectionHeader (Header_i idx)
          @ concat (map (\<lambda>k. encode_WemDescriptor (lookup (DescriptorMap idx) k)) (WemIds idx)),
        8 + 12 * int (length (WemIds idx)), None)"
    by (rule DataIndexSection_WriteTo_eq)
next
  assume a: "0 \<le> off \<and> int (length bs) \<le> maxint64 \<and> drop (nat off) bs = encode_chunk c @ rest
        \<and> tag c = didxHeaderId \<and> length (payload c) < 2 ^ 32
        \<and> payload c = concat (map encode_WemDescriptor recs) \<and> distinct (map WemId recs)"
  from a have a': "0 \<le> off" "int (length bs) \<le> maxint64" "length (payload c) < 2 ^ 32"
    "drop (nat off) bs = encode_chunk c @ rest"
    by blast+
  have at: "chunk_at bs off c" by (rule chunk_atI [OF a'])
  from a NewDataIndexSection_chunk [OF at, of recs] obtain idx1 where
    p: "NewDataIndexSection (chunk_header c) (source_reader bs (off + 8))
          = Inr (idx1, source_reader bs (off + 8 + int (length (payload c))))"
    and io: "index_of idx1 recs"
    and w: "DataIndexSection_WriteTo idx1 = (encode_chunk c, int (length (encode_chunk c)), None)"
    by blast
  from io have "WemIds idx1 = map WemId recs" by (simp add: index_of_def)
  with p w index_of_lookup [OF io]
  show "\<exists>idx1 r'. NewDataIndexSection (chunk_header c) (source_reader bs (off + 8))
                          = Inr (idx1, r')
              \<and> WemIds idx1 = map WemId recs
              \<and> map (lookup (DescriptorMap idx1)) (WemIds idx1) = recs
              \<and> fst (DataIndexSection_WriteTo idx1) = encode_chunk c"
    by (intro exI [of _ idx1] exI [of _ "source_reader bs (off + 8 + int (length (payload c)))"])
       simp
next
  assume a: "IndexSection bnk = Some idx_f \<and> DataSection bnk = Some data_f \<and> indexed_by idx_f data_f
        \<and> (ReplaceWem bnk i rd len = (bnk', None)
            \<or> ReplaceWems bnk [\<lparr>Wem_r = rd, WemIndex = i, Length_r = len\<rparr>] = (bnk', None))"
  then have rw: "ReplaceWem bnk i rd len = (bnk', None)"
    by (intro ReplaceWems_single) simp
  from a index_written_after_replace [OF _ _ _ rw, of idx_f data_f]
  show "\<exists>idx'. IndexSection bnk' = Some idx' \<and> WemIds idx' = WemIds idx_f
              \<and> 0 \<le> i \<and> nat i < length (WemIds idx_f)
              \<and> fst (DataIndexSection_WriteTo idx')
                  = encode_SectionHeader (Header_i idx_f)
                      @ concat (map encode_WemDescriptor
                          ((map (lookup (DescriptorMap idx_f)) (WemIds idx_f))
                             [nat i := (lookup (DescriptorMap idx_f) (WemIds idx_f ! nat i))
                                         \<lparr>Length_w := word_of_int len\<rparr>]))"
    by blast
next
  let ?F = "filter (\<lambda>c. tag c = didxHeaderId) cs"
  assume a: "int (length (concat (map encode_chunk cs))) \<le> maxint64
        \<and> chunks_ok recs_of None cs \<and> index_first False cs
        \<and> (NewFile (concat (map encode_chunk cs)) = Inr fl
            \<or> NewFile2 (concat (map encode_chunk cs)) = Inr fl)
        \<and> (ReplaceWem fl j rd' len' = (fl', None)
            \<or> ReplaceWems fl [\<lparr>Wem_r = rd', WemIndex = j, Length_r = len'\<rparr>] = (fl', None))
        \<and> x = last ?F"
  then have l: "NewFile_loop (concat (map encode_chunk cs)) 0 new_File = Inr fl"
    by (intro NewFile_loop_of_NewFile) simp
  from a have rw: "ReplaceWem fl j rd' len' = (fl', None)"
    by (intro ReplaceWems_single) simp
  from a have h: "int (length (concat (map encode_chunk cs))) \<le> maxint64"
    "chunks_ok recs_of None cs" "index_first False cs" and x: "x = last ?F"
    by simp_all
  note sa = NewFile_chunks_indexed(1) [OF h l]
  note rep = NewFile_chunks_indexed(2) [OF h l]
  from rw obtain data where data: "DataSection fl = Some data"
    by (cases "DataSection fl") (auto simp: ReplaceWem_def)
  with sa obtain idx3 where idx3: "IndexSection fl = Some idx3" and ib: "indexed_by idx3 data"
    by (auto simp: sections_agree_def split: option.splits)
  from rep idx3 have g: "good_didx recs_of idx3 x"
    by (auto simp: absorb_eq represents_def last_or_def x option_rel_Some1 split: if_splits)
  then have io: "index_of idx3 (recs_of x)"
    and w: "fst (DataIndexSection_WriteTo idx3) = encode_chunk x"
    by (simp_all add: good_didx_def)
  note lk = index_of_lookup [OF io]
  from io have ids: "WemIds idx3 = map WemId (recs_of x)" by (simp add: index_of_def)
  from index_written_after_replace [OF idx3 data ib rw] obtain idx3' where
    i': "IndexSection fl' = Some idx3'" "WemIds idx3' = WemIds idx3" "0 \<le> j"
      "nat j < length (WemIds idx3)"
    and w': "fst (DataIndexSection_WriteTo idx3')
               = encode_SectionHeader (Header_i idx3)
                   @ concat (map encode_WemDescriptor
                       ((map (lookup (DescriptorMap idx3)) (WemIds idx3))
                          [nat j := (lookup (DescriptorMap idx3) (WemIds idx3 ! nat j))
                                      \<lparr>Length_w := word_of_int len'\<rparr>]))"
    by blast
  have "lookup (DescriptorMap idx3) (WemIds idx3 ! nat j)
      = map (lookup (DescriptorMap idx3)) (WemIds idx3) ! nat j"
    using i'(4) by simp
  then have at: "lookup (DescriptorMap idx3) (WemIds idx3 ! nat j) = recs_of x ! nat j"
    by (simp only: lk)
  have w'': "fst (DataIndexSection_WriteTo idx3')
      = encode_SectionHeader (chunk_header x)
          @ concat (map encode_WemDescriptor
              ((recs_of x)[nat j := (recs_of x ! nat j)\<lparr>Length_w := word_of_int len'\<rparr>]))"
    unfolding w' lk at good_didx_header [OF g] ..
  from idx3 i' ids w w''
  show "\<exists>idx3 idx3'. IndexSection fl = Some idx3 \<and> IndexSection fl' = Some idx3'
              \<and> 0 \<le> j \<and> nat j < length (recs_of x)
              \<and> WemIds idx3 = map WemId (recs_of x) \<and> WemIds idx3' = map WemId (recs_of x)
              \<and> fst (DataIndexSection_WriteTo idx3) = encode_chunk x
              \<and> fst (DataIndexSection_WriteTo idx3')
                  = encode_SectionHeader (chunk_header x)
                      @ concat (map encode_WemDescriptor
                          ((recs_of x)[nat j := (recs_of x ! nat j)
                                                  \<lparr>Length_w := word_of_int len'\<rparr>]))"
    by (intro exI [of _ idx3] exI [of _ idx3']) simp
qed


text \<open>The chunks and the index records of the bank \<open>two_wems\<close>.\<close>

definition two_wems_chunks :: "chunk list" where
  "two_wems_chunks =
     [\<lparr>tag = bkhdHeaderId, payload = [1, 0, 0, 0, 2, 0, 0, 0]\<rparr>,
      \<lparr>tag = didxHeaderId,
       payload = [1, 0, 0, 0, 0, 0, 0, 0, 4, 0, 0, 0,   2, 0, 0, 0, 4, 0, 0, 0, 4, 0, 0, 0]\<rparr>,
      \<lparr>tag = dataHeaderId, payload = [0xAA, 0xAA, 0xAA, 0xAA, 0xCC, 0xCC, 0xCC, 0xCC]\<rparr>]"

definition two_wems_records :: "WemDescriptor list" where
  "two_wems_records =
     [\<lparr>WemId = 1, Offset = 0, Length_w = 4\<rparr>, \<lparr>WemId = 2, Offset = 4, Length_w = 4\<rparr>]"

theorem index_serialization_order_witness:
  "concat (map encode_chunk two_wems_chunks) = two_wems
   \<and> chunks_ok (\<lambda>_. two_wems_records) None two_wems_chunks
   \<and> index_first False two_wems_chunks
   \<and> NewFile two_wems = Inr two_wems_File
   \<and> indexed_by (the (IndexSection two_wems_File)) (the (DataSection two_wems_File))
   \<and> ReplaceWem two_wems_File 0 (BytesReaderAt [0xBB, 0xBB]) 2 = (two_wems_replaced, None)
   \<and> fst (DataIndexSection_WriteTo (the (IndexSection two_wems_File)))
       = [0x44, 0x49, 0x44, 0x58, 24, 0, 0, 0,
          1, 0, 0, 0, 0, 0, 0, 0, 4, 0, 0, 0,   2, 0, 0, 0, 4, 0, 0, 0, 4, 0, 0, 0]
   \<and> fst (DataIndexSection_WriteTo (the (IndexSection two_wems_replaced)))
       = [0x44, 0x49, 0x44, 0x58, 24, 0, 0, 0,
          1, 0, 0, 0, 0, 0, 0, 0, 2, 0, 0, 0,   2, 0, 0, 0, 4, 0, 0, 0, 4, 0, 0, 0]
   \<and> WemIds (the (IndexSection two_wems_replaced)) = [1, 2]
   \<and> drop (nat 16) two_wems
       = encode_chunk (two_wems_chunks ! 1) @ encode_chunk (two_wems_chunks ! 2)
   \<and> (\<exists>idx1 r'. NewDataIndexSection (chunk_header (two_wems_chunks ! 1))
                        (source_reader two_wems (16 + 8)) = Inr (idx1, r')
          \<and> WemIds idx1 = [1, 2])"
proof -
  have c: "concat (map encode_chunk two_wems_chunks) = two_wems"
    by (simp add: two_wems_chunks_def two_wems_def encode_eval)
  have ok: "chunks_ok (\<lambda>_. two_wems_records) None two_wems_chunks"
    by (simp add: two_wems_chunks_def two_wems_records_def tiles_def encode_eval
        nth_Cons split: nat.splits)
  have f: "index_first False two_wems_chunks"
    by (simp add: two_wems_chunks_def encode_eval)
  have x: "two_wems_chunks ! 1 = last (filter (\<lambda>c. tag c = didxHeaderId) two_wems_chunks)"
    by (simp add: two_wems_chunks_def encode_eval)
  have m: "int (length (concat (map encode_chunk two_wems_chunks))) \<le> maxint64"
    unfolding c by (simp add: two_wems_def maxint64_def)
  have ib: "indexed_by (the (IndexSection two_wems_File)) (the (DataSection two_wems_File))"
    by (auto simp: indexed_by_def index_consistent_def two_wems_File_def lookup_def)
  have s: "IndexSection two_wems_File = Some (the (IndexSection two_wems_File))"
    "DataSection two_wems_File = Some (the (DataSection two_wems_File))"
    by (simp_all add: two_wems_File_def)
  note T = index_serialization_order [where cs = two_wems_chunks
      and recs_of = "\<lambda>_. two_wems_records" and fl = two_wems_File and j = 0
      and rd' = "BytesReaderAt [0xBB, 0xBB]" and len' = 2 and fl' = two_wems_replaced
      and x = "two_wems_chunks ! 1" and bnk = two_wems_File
      and idx_f = "the (IndexSection two_wems_File)"
      and data_f = "the (DataSection two_wems_File)" and i = 0
      and rd = "BytesReaderAt [0xBB, 0xBB]" and len = 2 and bnk' = two_wems_replaced
      and off = 16 and bs = two_wems and c = "two_wems_chunks ! 1"
      and rest = "encode_chunk (two_wems_chunks ! 2)" and recs = two_wems_records]
  from T s ib ReplaceWem_two_wems
  obtain idx' where "IndexSection two_wems_replaced = Some idx'"
    "WemIds idx' = WemIds (the (IndexSection two_wems_File))"
    by blast
  then have ids: "WemIds (the (IndexSection two_wems_replaced)) = [1, 2]"
    by (simp add: two_wems_File_def)
  have dr: "drop (nat 16) two_wems
       = encode_chunk (two_wems_chunks ! 1) @ encode_chunk (two_wems_chunks ! 2)"
    by (simp add: two_wems_chunks_def two_wems_def encode_eval)
  have p: "(0 :: int) \<le> 16" "int (length two_wems) \<le> maxint64"
    "tag (two_wems_chunks ! 1) = didxHeaderId" "length (payload (two_wems_chunks ! 1)) < 2 ^ 32"
    "payload (two_wems_chunks ! 1) = concat (map encode_WemDescriptor two_wems_records)"
    "distinct (map WemId two_wems_records)"
    by (simp_all add: two_wems_chunks_def two_wems_def two_wems_records_def maxint64_def
        encode_eval)
  from T p dr
  obtain idx1 r' where "NewDataIndexSection (chunk_header (two_wems_chunks ! 1))
        (source_reader two_wems (16 + 8)) = Inr (idx1, r')"
    "WemIds idx1 = map WemId two_wems_records"
    by blast
  then have ex: "\<exists>idx1 r'. NewDataIndexSection (chunk_header (two_wems_chunks ! 1))
                        (source_reader two_wems (16 + 8)) = Inr (idx1, r')
          \<and> WemIds idx1 = [1, 2]"
    by (auto simp: two_wems_records_def)
  from T m ok f x NewFile_two_wems ReplaceWem_two_wems [unfolded c [symmetric]]
  obtain idx3 idx3' where i: "IndexSection two_wems_File = Some idx3"
    "IndexSection two_wems_replaced = Some idx3'"
    and w: "fst (DataIndexSection_WriteTo idx3) = encode_chunk (two_wems_chunks ! 1)"
    "fst (DataIndexSection_WriteTo idx3')
       = encode_SectionHeader (chunk_header (two_wems_chunks ! 1))
           @ concat (map encode_WemDescriptor
               (two_wems_records[nat 0 := (two_wems_records ! nat 0)
                                            \<lparr>Length_w := word_of_int 2\<rparr>]))"
    unfolding c by blast
  from i w have
    "fst (DataIndexSection_WriteTo (the (IndexSection two_wems_File)))
       = [0x44, 0x49, 0x44, 0x58, 24, 0, 0, 0,
          1, 0, 0, 0, 0, 0, 0, 0, 4, 0, 0, 0,   2, 0, 0, 0, 4, 0, 0, 0, 4, 0, 0, 0]"
    "fst (DataIndexSection_WriteTo (the (IndexSection two_wems_replaced)))
       = [0x44, 0x49, 0x44, 0x58, 24, 0, 0, 0,
          1, 0, 0, 0, 0, 0, 0, 0, 2, 0, 0, 0,   2, 0, 0, 0, 4, 0, 0, 0, 4, 0, 0, 0]"
    by (simp_all add: two_wems_chunks_def two_wems_records_def encode_eval)
  with c ok f NewFile_two_wems ib ReplaceWem_two_wems ids dr ex show ?thesis by (intro conjI)
qed

text \<open>
  A bank with a second DIDX chunk after its DATA chunk: a DIDX chunk with the record
  \<open>(1, 0, 4)\<close>, a DATA chunk of 4 bytes, and a DIDX chunk with the record \<open>(2, 0, 4)\<close>.
  \<open>reindexed_File\<close> is what \<^verbatim>\<open>NewFile\<close> builds from it (the wem was built from the first
  index, the index kept is the second), \<open>reindexed_replaced\<close> is that \<^verbatim>\<open>File\<close> after wem 0
  is replaced by two bytes.
\<close>

definition reindexed :: "byte list" where
  "reindexed =
     [0x44, 0x49, 0x44, 0x58, 12, 0, 0, 0,  1, 0, 0, 0, 0, 0, 0, 0, 4, 0, 0, 0,
      0x44, 0x41, 0x54, 0x41, 4, 0, 0, 0,   0xAA, 0xAA, 0xAA, 0xAA,
      0x44, 0x49, 0x44, 0x58, 12, 0, 0, 0,  2, 0, 0, 0, 0, 0, 0, 0, 4, 0, 0, 0]"

definition reindexed_File :: File where
  "reindexed_File =
     \<lparr>closer = None, BankHeaderSection = None,
      IndexSection = Some
        \<lparr>Header_i = \<lparr>Identifier = didxHeaderId, Length = 12\<rparr>, WemCount = 1, WemIds = [2],
         DescriptorMap = [2 \<mapsto> \<lparr>WemId = 2, Offset = 0, Length_w = 4\<rparr>]\<rparr>,
      DataSection = Some
        \<lparr>Header_d = \<lparr>Identifier = dataHeaderId, Length = 4\<rparr>, DataStart = 28,
         Wems =
           [\<lparr>Reader = \<lparr>sr_r = SectionReaderAt (BytesReaderAt reindexed) 0 maxint64,
                       sr_base = 28, sr_off = 28, sr_limit = 32\<rparr>,
             Descriptor = \<lparr>WemId = 1, Offset = 0, Length_w = 4\<rparr>,
             RemainingReader = Some
               \<lparr>sr_r = SectionReaderAt (BytesReaderAt reindexed) 0 maxint64,
                sr_base = 32, sr_off = 32, sr_limit = 32\<rparr>,
             RemainingLength = 0\<rparr>]\<rparr>,
      Others = []\<rparr>"

definition reindexed_replaced :: File where
  "reindexed_replaced =
     reindexed_File
       \<lparr>IndexSection := Some
          \<lparr>Header_i = \<lparr>Identifier = didxHeaderId, Length = 12\<rparr>, WemCount = 1, WemIds = [2],
           DescriptorMap = [2 \<mapsto> \<lparr>WemId = 2, Offset = 0, Length_w = 4\<rparr>,
                            1 \<mapsto> \<lparr>WemId = 1, Offset = 0, Length_w = 2\<rparr>]\<rparr>,
        DataSection := Some
          \<lparr>Header_d = \<lparr>Identifier = dataHeaderId, Length = 4\<rparr>, DataStart = 28,
           Wems =
             [\<lparr>Reader = \<lparr>sr_r = BytesReaderAt [0xBB, 0xBB], sr_base = 0, sr_off = 0,
                         sr_limit = 2\<rparr>,
               Descriptor = \<lparr>WemId = 1, Offset = 0, Length_w = 2\<rparr>,
               RemainingReader = Some
                 \<lparr>sr_r = InfiniteReaderAt 0, sr_base = 0, sr_off = 0, sr_limit = 2\<rparr>,
               RemainingLength = 0\<rparr>]\<rparr>\<rparr>"

lemma NewFile_reindexed: "NewFile reindexed = Inr reindexed_File"
  unfolding reindexed_File_def reindexed_def
  by (simp add: parse_eval)

text \<open>
  Claim C9, counterexample to the claim as first stated. In the \<^verbatim>\<open>File\<close> parsed from
  \<open>reindexed\<close> the wem has id 1 and the index lists only id 2. Replacing wem 0 by two bytes
  succeeds and sets the length of the wem's descriptor to 2, but the record is stored
  under id 1, which \<open>WemIds\<close> does not list: the index written after the replacement is
  the index written before it, and no record written carries the new length.
\<close>

theorem index_serialization_order_counterexample:
  "NewFile reindexed = Inr reindexed_File
   \<and> ReplaceWem reindexed_File 0 (BytesReaderAt [0xBB, 0xBB]) 2 = (reindexed_replaced, None)
   \<and> ReplaceWems reindexed_File
         [\<lparr>Wem_r = BytesReaderAt [0xBB, 0xBB], WemIndex = 0, Length_r = 2\<rparr>]
       = (reindexed_replaced, None)
   \<and> map Descriptor (Wems (the (DataSection reindexed_replaced)))
       = [\<lparr>WemId = 1, Offset = 0, Length_w = 2\<rparr>]
   \<and> fst (DataIndexSection_WriteTo (the (IndexSection reindexed_File)))
       = [0x44, 0x49, 0x44, 0x58, 12, 0, 0, 0,  2, 0, 0, 0, 0, 0, 0, 0, 4, 0, 0, 0]
   \<and> fst (DataIndexSection_WriteTo (the (IndexSection reindexed_replaced)))
       = [0x44, 0x49, 0x44, 0x58, 12, 0, 0, 0,  2, 0, 0, 0, 0, 0, 0, 0, 4, 0, 0, 0]"
proof -
  have r1: "ReplaceWem reindexed_File 0 (BytesReaderAt [0xBB, 0xBB]) 2
      = (reindexed_replaced, None)"
    by (simp add: ReplaceWem_def reindexed_File_def reindexed_replaced_def Let_def
        NewSectionReader_def int64_def maxint64_def)
  have r2: "ReplaceWems reindexed_File
         [\<lparr>Wem_r = BytesReaderAt [0xBB, 0xBB], WemIndex = 0, Length_r = 2\<rparr>]
       = (reindexed_replaced, None)"
    by (simp add: ReplaceWems_step_def reindexed_File_def reindexed_replaced_def Let_def
        NewSectionReader_def int64_def maxint64_def)
  have d: "map Descriptor (Wems (the (DataSection reindexed_replaced)))
       = [\<lparr>WemId = 1, Offset = 0, Length_w = 2\<rparr>]"
    by (simp add: reindexed_replaced_def)
  have w: "fst (DataIndexSection_WriteTo (the (IndexSection reindexed_File)))
       = [0x44, 0x49, 0x44, 0x58, 12, 0, 0, 0,  2, 0, 0, 0, 0, 0, 0, 0, 4, 0, 0, 0]"
    "fst (DataIndexSection_WriteTo (the (IndexSection reindexed_replaced)))
       = [0x44, 0x49, 0x44, 0x58, 12, 0, 0, 0,  2, 0, 0, 0, 0, 0, 0, 0, 4, 0, 0, 0]"
    by (simp_all add: reindexed_File_def reindexed_replaced_def DataIndexSection_WriteTo_eq
        lookup_def encode_eval)
  from NewFile_reindexed r1 r2 d w show ?thesis by (intro conjI)
qed

end
